theory Spec2Isabelle
  imports Main "HOL-Library.Multiset"
begin

section \<open>npmrm: locating, measuring and removing node_modules directories\<close>

text \<open>
  The development embeds \<^verbatim>\<open>src/bin/npmrm.js\<close>. The Node.js platform (the \<^verbatim>\<open>fs\<close>
  module, the event loop) is not part of the repository: the file system is a record of
  oracle functions, one per \<^verbatim>\<open>fs\<close> call the program makes, and the event loop is a
  scheduler that picks which suspended worker resumes next. An absolute, normalised path
  is the list of its components, so \<^verbatim>\<open>path.join(dir, ent.name)\<close> is \<open>dir @ [name]\<close>
  (directory listings never contain the names \<^verbatim>\<open>.\<close> and \<^verbatim>\<open>..\<close>) and
  \<^verbatim>\<open>path.resolve(rootPath)\<close> is the component list of the root.
\<close>

subsection \<open>Constants\<close>

definition DIR_CONCURRENCY :: nat where
  "DIR_CONCURRENCY = 128"

definition STAT_CONCURRENCY :: nat where
  "STAT_CONCURRENCY = 256"

definition DELETE_CONCURRENCY :: nat where
  "DELETE_CONCURRENCY = 4"

subsection \<open>The bounded parallel executor: \<^verbatim>\<open>runParallel\<close>\<close>

text \<open>
  A task is a zero-argument asynchronous function. Its promise settles with a value
  (\<open>Inr\<close>) or an error (\<open>Inl\<close>, a rejection or a synchronous throw: both happen inside
  the worker's \<^verbatim>\<open>try\<close>). A task may read and write state it shares with its siblings
  (the visited set of the locator, the error list of the deletion phase); every task of
  this program touches that state at a single synchronous point, so a task is a function
  from the shared state at that point to its outcome and the state it leaves.
\<close>

type_synonym ('s, 'e, 'v) task = "'s \<Rightarrow> ('e + 'v) \<times> 's"

text \<open>
  A slot of \<^verbatim>\<open>results\<close>: \<^verbatim>\<open>new Array(n)\<close> starts with holes (read as
  \<^verbatim>\<open>undefined\<close>), the \<^verbatim>\<open>try\<close> branch stores the value and the \<^verbatim>\<open>catch\<close> branch
  stores \<^verbatim>\<open>{ error: e }\<close>.
\<close>

datatype ('e, 'v) slot = Hole | Value 'v | Captured 'e

fun capture :: "'e + 'v \<Rightarrow> ('e, 'v) slot" where
  "capture (Inr v) = Value v"
| "capture (Inl e) = Captured e"

text \<open>
  A worker is at its loop test (\<open>Ready\<close>), suspended at the \<^verbatim>\<open>await\<close> on the task it
  invoked for index \<open>currentIndex\<close> (\<open>Awaiting\<close>), or has left its loop (\<open>Finished\<close>).
\<close>

datatype ('s, 'e, 'v) worker = Ready | Awaiting nat "('s, 'e, 'v) task" | Finished

text \<open>
  The state of one call: the cursor \<^verbatim>\<open>index\<close>, the array \<^verbatim>\<open>results\<close>, the workers,
  and the state the tasks share. \<open>invoked\<close> and \<open>settled\<close> are history variables (the
  indices in the order they were claimed, and in the order their tasks settled); no step
  reads them.
\<close>

record ('s, 'e, 'v) pool =
  index :: nat
  results :: "('e, 'v) slot list"
  workers :: "('s, 'e, 'v) worker list"
  shared :: 's
  invoked :: "nat list"
  settled :: "nat list"

definition pool_init :: "('s, 'e, 'v) task list \<Rightarrow> nat \<Rightarrow> 's \<Rightarrow> ('s, 'e, 'v) pool" where
  "pool_init tasks concurrency sh =
     \<lparr> index = 0,
       results = replicate (length tasks) Hole,
       workers = replicate (min concurrency (length tasks)) Ready,
       shared = sh,
       invoked = [],
       settled = [] \<rparr>"

text \<open>
  One scheduling step: worker \<open>w\<close> runs from where it is suspended to its next
  suspension. A ready worker tests \<^verbatim>\<open>index < tasks.length\<close>, claims
  \<^verbatim>\<open>currentIndex = index++\<close> and invokes the task, or leaves the loop; an awaiting
  worker resumes when its task has settled and stores the outcome in its slot. (In the
  program the store and the next loop test run without suspension in between; taking
  them as two steps only adds interleavings.)
\<close>

definition worker_step ::
  "('s, 'e, 'v) task list \<Rightarrow> nat \<Rightarrow> ('s, 'e, 'v) pool \<Rightarrow> ('s, 'e, 'v) pool option" where
  "worker_step tasks w p =
     (if w < length (workers p) then
        (case workers p ! w of
           Ready \<Rightarrow>
             if index p < length tasks then
               let currentIndex = index p in
               Some (p\<lparr> index := currentIndex + 1,
                        workers := (workers p)[w := Awaiting currentIndex (tasks ! currentIndex)],
                        invoked := invoked p @ [currentIndex] \<rparr>)
             else Some (p\<lparr> workers := (workers p)[w := Finished] \<rparr>)
         | Awaiting currentIndex t \<Rightarrow>
             (case t (shared p) of
                (outcome, sh) \<Rightarrow>
                  Some (p\<lparr> results := (results p)[currentIndex := capture outcome],
                           shared := sh,
                           workers := (workers p)[w := Ready],
                           settled := settled p @ [currentIndex] \<rparr>))
         | Finished \<Rightarrow> None)
      else None)"

text \<open>A schedule names the worker that steps next; a step of a worker that cannot step
  makes the schedule invalid.\<close>

fun pool_run ::
  "('s, 'e, 'v) task list \<Rightarrow> nat list \<Rightarrow> ('s, 'e, 'v) pool \<Rightarrow> ('s, 'e, 'v) pool option" where
  "pool_run tasks [] p = Some p"
| "pool_run tasks (w # sched) p =
     (case worker_step tasks w p of None \<Rightarrow> None | Some p' \<Rightarrow> pool_run tasks sched p')"

text \<open>\<^verbatim>\<open>await Promise.all(workers)\<close> resumes once every worker has left its loop.\<close>

definition is_Finished :: "('s, 'e, 'v) worker \<Rightarrow> bool" where
  "is_Finished wk = (case wk of Finished \<Rightarrow> True | _ \<Rightarrow> False)"

definition all_finished :: "('s, 'e, 'v) pool \<Rightarrow> bool" where
  "all_finished p = list_all is_Finished (workers p)"

text \<open>The indices of the tasks in flight, and their number.\<close>

fun in_flight :: "('s, 'e, 'v) worker list \<Rightarrow> nat list" where
  "in_flight [] = []"
| "in_flight (Awaiting i t # ws) = i # in_flight ws"
| "in_flight (Ready # ws) = in_flight ws"
| "in_flight (Finished # ws) = in_flight ws"

text \<open>
  \<^verbatim>\<open>runParallel(tasks, concurrency)\<close> under a schedule: the returned array and the
  shared state, when the schedule is valid and runs every worker to its end.
\<close>

definition runParallel_sched ::
  "('s, 'e, 'v) task list \<Rightarrow> nat \<Rightarrow> nat list \<Rightarrow> 's \<Rightarrow> (('e, 'v) slot list \<times> 's) option" where
  "runParallel_sched tasks concurrency sched sh =
     (case pool_run tasks sched (pool_init tasks concurrency sh) of
        None \<Rightarrow> None
      | Some p \<Rightarrow> if all_finished p then Some (results p, shared p) else None)"

text \<open>
  The same call summarised by the order in which the tasks settle. \<open>lat i\<close> is the
  latency of task \<open>i\<close>; the tasks settle by increasing latency (ties by index), each one
  storing its outcome in its own slot. With no worker (\<open>concurrency = 0\<close> or no task)
  the array of holes is returned as it is.
\<close>

fun settleInOrder ::
  "('s, 'e, 'v) task list \<Rightarrow> nat list \<Rightarrow> ('e, 'v) slot list \<times> 's \<Rightarrow> ('e, 'v) slot list \<times> 's" where
  "settleInOrder tasks [] st = st"
| "settleInOrder tasks (i # order) (res, sh) =
     (case (tasks ! i) sh of
        (outcome, sh') \<Rightarrow> settleInOrder tasks order (res[i := capture outcome], sh'))"

definition runParallel ::
  "(nat \<Rightarrow> nat) \<Rightarrow> ('s, 'e, 'v) task list \<Rightarrow> nat \<Rightarrow> 's \<Rightarrow> ('e, 'v) slot list \<times> 's" where
  "runParallel lat tasks concurrency sh =
     (if min concurrency (length tasks) = 0 then (replicate (length tasks) Hole, sh)
      else settleInOrder tasks (sort_key lat [0..<length tasks])
             (replicate (length tasks) Hole, sh))"

text \<open>A task that touches no shared state is given by its outcome alone.\<close>

definition pure_task :: "'e + 'v \<Rightarrow> (unit, 'e, 'v) task" where
  "pure_task outcome = (\<lambda>sh. (outcome, sh))"

definition runParallelPure :: "('e + 'v) list \<Rightarrow> nat \<Rightarrow> ('e, 'v) slot list" where
  "runParallelPure outcomes concurrency =
     fst (runParallel (\<lambda>i. i) (map pure_task outcomes) concurrency ())"


subsection \<open>Auxiliary notions for the executor\<close>

text \<open>A quantity that every step of a worker decreases, and what every reachable state
  of the pool satisfies.\<close>

definition unfinished :: "('s, 'e, 'v) worker list \<Rightarrow> nat" where
  "unfinished ws = length (filter (\<lambda>wk. \<not> is_Finished wk) ws)"

definition pool_potential :: "('s, 'e, 'v) task list \<Rightarrow> ('s, 'e, 'v) pool \<Rightarrow> nat" where
  "pool_potential tasks p =
     2 * (length tasks - index p) + length (in_flight (workers p)) + unfinished (workers p)"

definition pool_inv ::
  "('s, 'e, 'v) task list \<Rightarrow> nat \<Rightarrow> 's \<Rightarrow> ('s, 'e, 'v) pool \<Rightarrow> bool" where
  "pool_inv tasks c sh0 p \<longleftrightarrow>
     length (workers p) = min c (length tasks) \<and>
     index p \<le> length tasks \<and>
     invoked p = [0..<index p] \<and>
     mset (settled p) + mset (in_flight (workers p)) = mset [0..<index p] \<and>
     (\<forall>w<length (workers p). \<forall>i t. workers p ! w = Awaiting i t \<longrightarrow> t = tasks ! i) \<and>
     ((\<exists>w<length (workers p). workers p ! w = Finished) \<longrightarrow> index p = length tasks) \<and>
     (results p, shared p) = settleInOrder tasks (settled p) (replicate (length tasks) Hole, sh0)"

text \<open>Three tasks, the second of which throws.\<close>

definition demo_tasks :: "(unit, string, nat) task list" where
  "demo_tasks = [pure_task (Inr 10), pure_task (Inl ''boom''), pure_task (Inr 30)]"



subsection \<open>The file system as the program sees it\<close>

text \<open>
  A call of the \<^verbatim>\<open>fs\<close> module either returns or throws; the thrown error is never
  inspected by the scanning code, so a failed call is \<open>None\<close>. The file system is not
  modified while a scan runs.
\<close>

type_synonym path = "string list"

text \<open>The type of a directory entry (\<^verbatim>\<open>fs.Dirent\<close> from \<^verbatim>\<open>withFileTypes: true\<close>):
  exactly one of the type tests of an entry holds, or none.\<close>

datatype dtype = DT_REG | DT_DIR | DT_LNK | DT_OTHER

record dirent =
  name :: string
  dtype :: dtype

definition isDirectory :: "dirent \<Rightarrow> bool" where
  "isDirectory ent = (dtype ent = DT_DIR)"

definition isSymbolicLink :: "dirent \<Rightarrow> bool" where
  "isSymbolicLink ent = (dtype ent = DT_LNK)"

definition isFile :: "dirent \<Rightarrow> bool" where
  "isFile ent = (dtype ent = DT_REG)"

text \<open>What the program reads of an \<^verbatim>\<open>fs.Stats\<close> object. Sizes are byte counts; they
  and their sums are taken to stay below \<open>2^53\<close>, where JavaScript numbers are exact.\<close>

record stats =
  st_isDirectory :: bool
  st_isFile :: bool
  st_size :: nat

record filesystem =
  readdir :: "path \<Rightarrow> dirent list option"
  stat :: "path \<Rightarrow> stats option"
  lstat :: "path \<Rightarrow> stats option"
  realpath :: "path \<Rightarrow> path option"

text \<open>The only error the scanning code can raise by itself: reading a property of
  \<^verbatim>\<open>undefined\<close>, or iterating it.\<close>

datatype exn = TypeError

subsection \<open>The locator: \<^verbatim>\<open>findNodeModules\<close>\<close>

text \<open>
  \<open>maxDepth\<close> is \<open>None\<close> when \<^verbatim>\<open>Number.isFinite(maxDepth)\<close> is false (the option is
  absent, or not a finite number) and the finite value otherwise (a fractional value
  compares with the integer depths as its floor does).
\<close>

record options =
  followSymlinks :: bool
  maxDepth :: "int option"

record node =
  dir :: path
  depth :: nat

record found =
  nodeModules :: "path list"
  subdirs :: "node list"

definition nothing :: found where
  "nothing = \<lparr> nodeModules = [], subdirs = [] \<rparr>"

definition shouldSkipDirName :: "string \<Rightarrow> bool" where
  "shouldSkipDirName nm = (nm = ''.git'' \<or> nm = ''.cache'')"

text \<open>The loop over the entries of one directory, with its three arrays
  \<^verbatim>\<open>nodeModules\<close>, \<^verbatim>\<open>subdirs\<close> and \<^verbatim>\<open>symlinkChecks\<close>.\<close>

fun scanEntries ::
  "bool \<Rightarrow> path \<Rightarrow> nat \<Rightarrow> dirent list \<Rightarrow> path list \<times> node list \<times> node list
     \<Rightarrow> path list \<times> node list \<times> node list" where
  "scanEntries follow d k [] acc = acc"
| "scanEntries follow d k (ent # entries) (nms, subs, checks) =
     (if \<not> isDirectory ent \<and> \<not> isSymbolicLink ent then
        scanEntries follow d k entries (nms, subs, checks)
      else
        let full = d @ [name ent] in
        if name ent = ''node_modules'' then
          scanEntries follow d k entries (nms @ [full], subs, checks)
        else if shouldSkipDirName (name ent) then
          scanEntries follow d k entries (nms, subs, checks)
        else if isDirectory ent then
          scanEntries follow d k entries (nms, subs @ [\<lparr> dir = full, depth = k + 1 \<rparr>], checks)
        else if isSymbolicLink ent \<and> follow then
          scanEntries follow d k entries (nms, subs, checks @ [\<lparr> dir = full, depth = k + 1 \<rparr>])
        else
          scanEntries follow d k entries (nms, subs, checks))"

text \<open>The symlink checks: \<^verbatim>\<open>fs.stat\<close> follows the link; a link to a directory is
  kept, any other and any failure gives \<^verbatim>\<open>null\<close>.\<close>

definition checkSymlink :: "filesystem \<Rightarrow> node \<Rightarrow> node option" where
  "checkSymlink fs c =
     (case stat fs (dir c) of
        Some st \<Rightarrow> if st_isDirectory st then Some c else None
      | None \<Rightarrow> None)"

text \<open>The part of a unit of work after the cycle guard: list the directory and sort
  its entries.\<close>

definition listDir :: "filesystem \<Rightarrow> options \<Rightarrow> node \<Rightarrow> found" where
  "listDir fs opts nd =
     (case readdir fs (dir nd) of
        None \<Rightarrow> nothing
      | Some entries \<Rightarrow>
          (case scanEntries (followSymlinks opts) (dir nd) (depth nd) entries ([], [], []) of
             (nms, subs, checks) \<Rightarrow>
               \<lparr> nodeModules = nms,
                 subdirs = subs @ [r. Some r \<leftarrow> map (checkSymlink fs) checks] \<rparr>))"

definition exceedsMaxDepth :: "options \<Rightarrow> nat \<Rightarrow> bool" where
  "exceedsMaxDepth opts k = (case maxDepth opts of None \<Rightarrow> False | Some m \<Rightarrow> int k > m)"

text \<open>
  One unit of work of a level. The shared state is \<^verbatim>\<open>seenRealPaths\<close>: \<open>None\<close> for
  \<^verbatim>\<open>null\<close>. The test \<^verbatim>\<open>seenRealPaths.has(real)\<close> and the \<^verbatim>\<open>add\<close> run without
  suspension after \<^verbatim>\<open>fs.realpath\<close> has returned; this is the point where the unit
  touches the shared state.
\<close>

definition scanTask :: "filesystem \<Rightarrow> options \<Rightarrow> node \<Rightarrow> (path set option, exn, found) task" where
  "scanTask fs opts nd seenRealPaths =
     (if exceedsMaxDepth opts (depth nd) then (Inr nothing, seenRealPaths)
      else
        (case seenRealPaths of
           Some seen \<Rightarrow>
             (case realpath fs (dir nd) of
                None \<Rightarrow> (Inr nothing, seenRealPaths)
              | Some real \<Rightarrow>
                  if real \<in> seen then (Inr nothing, seenRealPaths)
                  else (Inr (listDir fs opts nd), Some (insert real seen)))
         | None \<Rightarrow> (Inr (listDir fs opts nd), seenRealPaths)))"

text \<open>
  The loop over \<^verbatim>\<open>batchResults\<close>. Reading \<^verbatim>\<open>result.error\<close> of a hole throws; a
  captured error is skipped.
\<close>

fun gather ::
  "(exn, found) slot list \<Rightarrow> path list \<times> node list \<Rightarrow> exn + path list \<times> node list" where
  "gather [] acc = Inr acc"
| "gather (Hole # rest) acc = Inl TypeError"
| "gather (Captured e # rest) acc = gather rest acc"
| "gather (Value r # rest) (res, nextLevel) =
     gather rest (res @ nodeModules r, nextLevel @ subdirs r)"

text \<open>
  The level loop. \<open>sched currentLevel i\<close> is the latency of the \<^verbatim>\<open>fs.realpath\<close> call
  of unit \<open>i\<close> of the level: the event loop, not the program, decides in which order the
  units of a level reach the cycle guard. The progress callback only renders and is left
  out; its argument \<^verbatim>\<open>dirsScanned\<close> is kept. The loop need not end: \<open>None\<close> is a run
  that never returns.
\<close>

partial_function (option) findNodeModules_loop ::
  "filesystem \<Rightarrow> options \<Rightarrow> (node list \<Rightarrow> nat \<Rightarrow> nat) \<Rightarrow>
     path list \<Rightarrow> path set option \<Rightarrow> nat \<Rightarrow> node list \<Rightarrow> (exn + path list) option" where
  "findNodeModules_loop fs opts sched res seenRealPaths dirsScanned currentLevel =
     (if currentLevel = [] then Some (Inr res)
      else
        (case runParallel (sched currentLevel) (map (scanTask fs opts) currentLevel)
                DIR_CONCURRENCY seenRealPaths of
           (batchResults, seenRealPaths') \<Rightarrow>
             (case gather batchResults (res, []) of
                Inl e \<Rightarrow> Some (Inl e)
              | Inr (res', nextLevel) \<Rightarrow>
                  findNodeModules_loop fs opts sched res' seenRealPaths'
                    (dirsScanned + length currentLevel) nextLevel)))"

definition findNodeModules ::
  "filesystem \<Rightarrow> (node list \<Rightarrow> nat \<Rightarrow> nat) \<Rightarrow> path \<Rightarrow> options \<Rightarrow> (exn + path list) option" where
  "findNodeModules fs sched rootAbs opts =
     findNodeModules_loop fs opts sched []
       (if followSymlinks opts then Some {} else None) 0 [\<lparr> dir = rootAbs, depth = 0 \<rparr>]"


subsection \<open>The size accumulator: \<^verbatim>\<open>getDirSizeBytes\<close>\<close>

text \<open>The object a stat unit returns; \<open>None\<close> is \<^verbatim>\<open>null\<close>.\<close>

record sized =
  r_isDir :: bool
  r_isFile :: bool
  r_size :: nat
  r_full :: path

text \<open>The units of work, given by their outcomes: each catches every error of its one
  \<^verbatim>\<open>fs\<close> call and touches no shared state.\<close>

definition dirTask :: "filesystem \<Rightarrow> path \<Rightarrow> exn + path \<times> dirent list" where
  "dirTask fs d = Inr (d, case readdir fs d of Some entries \<Rightarrow> entries | None \<Rightarrow> [])"

definition statTask :: "filesystem \<Rightarrow> path \<Rightarrow> exn + sized option" where
  "statTask fs full =
     Inr (case stat fs full of
            Some st \<Rightarrow> Some \<lparr> r_isDir = st_isDirectory st, r_isFile = st_isFile st,
                              r_size = st_size st, r_full = full \<rparr>
          | None \<Rightarrow> None)"

definition lstatTask :: "filesystem \<Rightarrow> path \<Rightarrow> exn + sized option" where
  "lstatTask fs full =
     Inr (case lstat fs full of
            Some st \<Rightarrow> Some \<lparr> r_isDir = False, r_isFile = True,
                              r_size = st_size st, r_full = full \<rparr>
          | None \<Rightarrow> None)"

text \<open>The inner loop over the entries of one listed directory.\<close>

fun sortEntries ::
  "filesystem \<Rightarrow> bool \<Rightarrow> path \<Rightarrow> dirent list \<Rightarrow>
     path list \<times> (exn + sized option) list \<Rightarrow> path list \<times> (exn + sized option) list" where
  "sortEntries fs follow d [] acc = acc"
| "sortEntries fs follow d (ent # entries) (nextDirs, statTasks) =
     (let full = d @ [name ent] in
      if isSymbolicLink ent then
        (if \<not> follow then sortEntries fs follow d entries (nextDirs, statTasks)
         else sortEntries fs follow d entries (nextDirs, statTasks @ [statTask fs full]))
      else if isDirectory ent then
        sortEntries fs follow d entries (nextDirs @ [full], statTasks)
      else if isFile ent then
        sortEntries fs follow d entries (nextDirs, statTasks @ [lstatTask fs full])
      else sortEntries fs follow d entries (nextDirs, statTasks))"

text \<open>The outer loop over \<^verbatim>\<open>dirResults\<close>. Destructuring a hole throws; a captured
  error has no \<^verbatim>\<open>entries\<close>, and iterating \<^verbatim>\<open>undefined\<close> throws.\<close>

fun sortListings ::
  "filesystem \<Rightarrow> bool \<Rightarrow> (exn, path \<times> dirent list) slot list \<Rightarrow>
     path list \<times> (exn + sized option) list \<Rightarrow> exn + path list \<times> (exn + sized option) list" where
  "sortListings fs follow [] acc = Inr acc"
| "sortListings fs follow (Value (d, entries) # rest) acc =
     sortListings fs follow rest (sortEntries fs follow d entries acc)"
| "sortListings fs follow (Hole # rest) acc = Inl TypeError"
| "sortListings fs follow (Captured e # rest) acc = Inl TypeError"

text \<open>The loop over \<^verbatim>\<open>statResults\<close>: a hole or \<^verbatim>\<open>null\<close> is skipped, and a captured
  error has neither \<^verbatim>\<open>isFile\<close> nor \<^verbatim>\<open>isDir\<close>.\<close>

fun addStats :: "(exn, sized option) slot list \<Rightarrow> nat \<times> path list \<Rightarrow> nat \<times> path list" where
  "addStats [] acc = acc"
| "addStats (Value (Some r) # rest) (tot, nextDirs) =
     addStats rest
       (if r_isFile r then tot + r_size r else tot,
        if r_isDir r then nextDirs @ [r_full r] else nextDirs)"
| "addStats (Value None # rest) acc = addStats rest acc"
| "addStats (Hole # rest) acc = addStats rest acc"
| "addStats (Captured e # rest) acc = addStats rest acc"

partial_function (option) getDirSizeBytes_loop ::
  "filesystem \<Rightarrow> bool \<Rightarrow> nat \<Rightarrow> path list \<Rightarrow> (exn + nat) option" where
  "getDirSizeBytes_loop fs follow tot pending =
     (if pending = [] then Some (Inr tot)
      else
        (case sortListings fs follow
                (runParallelPure (map (dirTask fs) pending) DIR_CONCURRENCY) ([], []) of
           Inl e \<Rightarrow> Some (Inl e)
         | Inr (nextDirs, statTasks) \<Rightarrow>
             (case (if statTasks \<noteq> []
                    then addStats (runParallelPure statTasks STAT_CONCURRENCY) (tot, nextDirs)
                    else (tot, nextDirs)) of
                (tot', nextDirs') \<Rightarrow> getDirSizeBytes_loop fs follow tot' nextDirs')))"

definition getDirSizeBytes :: "filesystem \<Rightarrow> path \<Rightarrow> bool \<Rightarrow> (exn + nat) option" where
  "getDirSizeBytes fs dirPath follow = getDirSizeBytes_loop fs follow 0 [dirPath]"

text \<open>
  What the accumulator adds up, as a function of the file system. \<open>du n fs follow d\<close> walks
  the paths of at most \<open>n\<close> levels below \<open>d\<close>: a file entry counts its size, a plain
  directory is descended into, a symlink is ignored unless symlinks are followed, when it
  counts as what it resolves to; an entry that cannot be listed or stated counts 0. The
  walk is by path: a directory that is reached along several paths (through a symlink to
  it, or around a symlink cycle) is walked once for every such path.
\<close>

fun du :: "nat \<Rightarrow> filesystem \<Rightarrow> bool \<Rightarrow> path \<Rightarrow> nat" where
  "du 0 fs follow d = 0"
| "du (Suc n) fs follow d =
     (case readdir fs d of
        None \<Rightarrow> 0
      | Some entries \<Rightarrow>
          (\<Sum>ent\<leftarrow>entries.
             (case dtype ent of
                DT_REG \<Rightarrow> (case lstat fs (d @ [name ent]) of Some st \<Rightarrow> st_size st | None \<Rightarrow> 0)
              | DT_DIR \<Rightarrow> du n fs follow (d @ [name ent])
              | DT_LNK \<Rightarrow>
                  if follow then
                    (case stat fs (d @ [name ent]) of
                       Some st \<Rightarrow>
                         (if st_isFile st then st_size st else 0) +
                         (if st_isDirectory st then du n fs follow (d @ [name ent]) else 0)
                     | None \<Rightarrow> 0)
                  else 0
              | DT_OTHER \<Rightarrow> 0)))"

text \<open>
  The total in the words of the specification: the sizes of all regular files
  transitively reachable from the measured directory, each directory entry counted once.
  A directory entry is a name in a directory, and a directory is the same directory along
  whatever path it is reached: it is identified by its real path. \<open>reachableFiles\<close> lists
  the counted entries met within \<open>n\<close> levels with their sizes, in the order of the walk;
  \<open>regularFileBytes\<close> adds the sizes, taking every directory entry once. Symlinks are
  included only when they are followed, and what cannot be listed or stated contributes
  nothing.
\<close>

definition directoryId :: "filesystem \<Rightarrow> path \<Rightarrow> path" where
  "directoryId fs d = (case realpath fs d of Some r \<Rightarrow> r | None \<Rightarrow> d)"

fun reachableFiles ::
  "nat \<Rightarrow> filesystem \<Rightarrow> bool \<Rightarrow> path \<Rightarrow> ((path \<times> string) \<times> nat) list" where
  "reachableFiles 0 fs follow d = []"
| "reachableFiles (Suc n) fs follow d =
     (case readdir fs d of
        None \<Rightarrow> []
      | Some entries \<Rightarrow>
          concat (map (\<lambda>ent.
             case dtype ent of
               DT_REG \<Rightarrow>
                 (case lstat fs (d @ [name ent]) of
                    Some st \<Rightarrow> [((directoryId fs d, name ent), st_size st)]
                  | None \<Rightarrow> [])
             | DT_DIR \<Rightarrow> reachableFiles n fs follow (d @ [name ent])
             | DT_LNK \<Rightarrow>
                 if follow then
                   (case stat fs (d @ [name ent]) of
                      Some st \<Rightarrow>
                        (if st_isFile st then [((directoryId fs d, name ent), st_size st)] else []) @
                        (if st_isDirectory st then reachableFiles n fs follow (d @ [name ent]) else [])
                    | None \<Rightarrow> [])
                 else []
             | DT_OTHER \<Rightarrow> []) entries))"

fun firstOfEach :: "('k \<times> 'v) list \<Rightarrow> ('k \<times> 'v) list" where
  "firstOfEach [] = []"
| "firstOfEach (kv # rest) = kv # firstOfEach (filter (\<lambda>x. fst x \<noteq> fst kv) rest)"

definition regularFileBytes :: "nat \<Rightarrow> filesystem \<Rightarrow> bool \<Rightarrow> path \<Rightarrow> nat" where
  "regularFileBytes n fs follow d =
     sum_list (map snd (firstOfEach (reachableFiles n fs follow d)))"


subsection \<open>The report: sizes, total and order\<close>

text \<open>A row \<^verbatim>\<open>{ nmPath, size }\<close>; the field \<^verbatim>\<open>size\<close> is called \<open>bytes\<close> here.\<close>

record row =
  nmPath :: path
  bytes :: nat

text \<open>A size unit of work awaits \<^verbatim>\<open>getDirSizeBytes\<close>: it returns the row, rejects when
  the accumulator rejects, and never settles when the accumulator never returns.\<close>

definition sizeTask :: "filesystem \<Rightarrow> bool \<Rightarrow> path \<Rightarrow> (exn + row) option" where
  "sizeTask fs follow p =
     (case getDirSizeBytes fs p follow of
        None \<Rightarrow> None
      | Some (Inl e) \<Rightarrow> Some (Inl e)
      | Some (Inr n) \<Rightarrow> Some (Inr \<lparr> nmPath = p, bytes = n \<rparr>))"

text \<open>\<^verbatim>\<open>(r.size || 0)\<close> for a row that is an object: a captured error has no
  \<^verbatim>\<open>size\<close>.\<close>

definition sizeOrZero :: "(exn, row) slot \<Rightarrow> nat" where
  "sizeOrZero r = (case r of Value v \<Rightarrow> bytes v | _ \<Rightarrow> 0)"

text \<open>\<^verbatim>\<open>rows.reduce((sum, r) => sum + (r.size || 0), 0)\<close>; \<^verbatim>\<open>reduce\<close> does not call
  its function on a hole.\<close>

fun sumRows :: "(exn, row) slot list \<Rightarrow> nat \<Rightarrow> exn + nat" where
  "sumRows [] acc = Inr acc"
| "sumRows (Hole # rows) acc = sumRows rows acc"
| "sumRows (r # rows) acc = sumRows rows (acc + sizeOrZero r)"

text \<open>The comparator \<^verbatim>\<open>(a, b) => (b.size || 0) - (a.size || 0)\<close>.\<close>

definition bySizeDesc :: "(exn, row) slot \<Rightarrow> (exn, row) slot \<Rightarrow> int" where
  "bySizeDesc a b = int (sizeOrZero b) - int (sizeOrZero a)"

text \<open>
  Modelled from the spec: \<^verbatim>\<open>Array.prototype.sort\<close> is the platform's; with a comparator
  it is a stable sort that puts \<open>a\<close> before \<open>b\<close> when the comparator is negative and keeps
  their order when it is zero. Here it is insertion from the right.
\<close>

fun insertBy :: "('a \<Rightarrow> 'a \<Rightarrow> int) \<Rightarrow> 'a \<Rightarrow> 'a list \<Rightarrow> 'a list" where
  "insertBy cmp x [] = [x]"
| "insertBy cmp x (y # ys) = (if cmp x y \<le> 0 then x # y # ys else y # insertBy cmp x ys)"

definition sortBy :: "('a \<Rightarrow> 'a \<Rightarrow> int) \<Rightarrow> 'a list \<Rightarrow> 'a list" where
  "sortBy cmp xs = foldr (insertBy cmp) xs []"

text \<open>From the outcomes of the size units to what is handed to rendering:
  \<^verbatim>\<open>totalBytes\<close> and the sorted rows.\<close>

definition report :: "(exn + row) list \<Rightarrow> exn + nat \<times> (exn, row) slot list" where
  "report sizeOutcomes =
     (let rows = runParallelPure sizeOutcomes DIR_CONCURRENCY in
      case sumRows rows 0 of
        Inl e \<Rightarrow> Inl e
      | Inr totalBytes \<Rightarrow> Inr (totalBytes, sortBy bySizeDesc rows))"

definition measureAll ::
  "filesystem \<Rightarrow> bool \<Rightarrow> path list \<Rightarrow> (exn + nat \<times> (exn, row) slot list) option" where
  "measureAll fs follow found = map_option report (those (map (sizeTask fs follow) found))"

subsection \<open>The deletion phase\<close>

datatype errno = ENOENT | EBUSY | EMFILE | ENFILE | ENOTEMPTY | EPERM | EACCES | EISDIR | EIO

text \<open>The error \<^verbatim>\<open>fs.rm\<close> rejects with; the program reads its \<^verbatim>\<open>message\<close>.\<close>

record rm_error =
  code :: errno
  message :: string

record rm_options =
  recursive :: bool
  force :: bool
  maxRetries :: nat
  retryDelay :: nat

text \<open>
  Modelled from the spec: \<^verbatim>\<open>fs.rm\<close> is the platform's. The spec asks for a best-effort
  recursive delete that tolerates ``already gone'' as success and, on a transient failure,
  retries a small fixed number of times with a short fixed delay before giving up. The
  platform documents the transient errors as \<^verbatim>\<open>EBUSY\<close>, \<^verbatim>\<open>EMFILE\<close>, \<^verbatim>\<open>ENFILE\<close>,
  \<^verbatim>\<open>ENOTEMPTY\<close> and \<^verbatim>\<open>EPERM\<close>, \<^verbatim>\<open>maxRetries\<close> as the number of retries after the
  first attempt, and \<^verbatim>\<open>force\<close> as ignoring a path that does not exist. The disk is the
  list of the directories that exist; \<open>faults p k\<close> is the error of attempt \<open>k\<close> at
  removing \<open>p\<close>, if it fails. Delays are not modelled.
\<close>

definition transient :: "errno \<Rightarrow> bool" where
  "transient e = (e = EBUSY \<or> e = EMFILE \<or> e = ENFILE \<or> e = ENOTEMPTY \<or> e = EPERM)"

fun rimraf :: "(path \<Rightarrow> nat \<Rightarrow> rm_error option) \<Rightarrow> path \<Rightarrow> nat \<Rightarrow> nat \<Rightarrow> rm_error option" where
  "rimraf faults p 0 k = faults p k"
| "rimraf faults p (Suc retriesLeft) k =
     (case faults p k of
        None \<Rightarrow> None
      | Some e \<Rightarrow> if transient (code e) then rimraf faults p retriesLeft (Suc k) else Some e)"

definition isUnder :: "path \<Rightarrow> path \<Rightarrow> bool" where
  "isUnder p q = (take (length p) q = p)"

definition fs_rm ::
  "(path \<Rightarrow> nat \<Rightarrow> rm_error option) \<Rightarrow> path \<Rightarrow> rm_options \<Rightarrow> path list \<Rightarrow> rm_error option \<times> path list" where
  "fs_rm faults p opts disk =
     (if p \<notin> set disk then
        (if force opts then (None, disk)
         else (Some \<lparr> code = ENOENT, message = ''ENOENT: no such file or directory'' \<rparr>, disk))
      else if \<not> recursive opts then
        (Some \<lparr> code = EISDIR, message = ''Path is a directory'' \<rparr>, disk)
      else
        (case rimraf faults p (maxRetries opts) 0 of
           None \<Rightarrow> (None, filter (\<lambda>q. \<not> isUnder p q) disk)
         | Some e \<Rightarrow>
             if code e = ENOENT \<and> force opts then (None, filter (\<lambda>q. \<not> isUnder p q) disk)
             else (Some e, disk)))"

definition removeDir ::
  "(path \<Rightarrow> nat \<Rightarrow> rm_error option) \<Rightarrow> path \<Rightarrow> path list \<Rightarrow> rm_error option \<times> path list" where
  "removeDir faults dirPath disk =
     fs_rm faults dirPath \<lparr> recursive = True, force = True, maxRetries = 3, retryDelay = 200 \<rparr> disk"

text \<open>What a deletion unit returns, \<^verbatim>\<open>{ success, path }\<close>, and the state the units
  share: the array \<^verbatim>\<open>deleteErrors\<close> of \<^verbatim>\<open>{ path, error }\<close> and the disk. The progress
  bar only renders and is left out.\<close>

record deleted =
  success :: bool
  path :: path

record deleting =
  deleteErrors :: "(path \<times> string) list"
  disk :: "path list"

text \<open>One deletion unit. A removal acts on the disk at one point (the targets are
  directories found by one scan); the \<^verbatim>\<open>catch\<close> branch records \<^verbatim>\<open>e?.message ?? e\<close>.
  The rows carry a path each: the size units cannot throw.\<close>

definition deleteTask ::
  "(path \<Rightarrow> nat \<Rightarrow> rm_error option) \<Rightarrow> row \<Rightarrow> (deleting, exn, deleted) task" where
  "deleteTask faults r st =
     (case removeDir faults (nmPath r) (disk st) of
        (None, disk') \<Rightarrow>
          (Inr \<lparr> success = True, path = nmPath r \<rparr>, st\<lparr> disk := disk' \<rparr>)
      | (Some e, disk') \<Rightarrow>
          (Inr \<lparr> success = False, path = nmPath r \<rparr>,
           st\<lparr> deleteErrors := deleteErrors st @ [(nmPath r, message e)], disk := disk' \<rparr>))"

text \<open>The loop over \<^verbatim>\<open>deleteResults\<close>: a captured error has no \<^verbatim>\<open>success\<close> and counts
  as failed; reading \<^verbatim>\<open>success\<close> of a hole throws.\<close>

fun tally :: "(exn, deleted) slot list \<Rightarrow> nat \<times> nat \<Rightarrow> exn + nat \<times> nat" where
  "tally [] acc = Inr acc"
| "tally (Hole # rest) acc = Inl TypeError"
| "tally (Captured e # rest) (removed, failed) = tally rest (removed, failed + 1)"
| "tally (Value result # rest) (removed, failed) =
     (if success result then tally rest (removed + 1, failed)
      else tally rest (removed, failed + 1))"

record summary =
  removedCount :: nat
  failedCount :: nat
  failures :: "(path \<times> string) list"
  remaining :: "path list"

definition deletePhase ::
  "(path \<Rightarrow> nat \<Rightarrow> rm_error option) \<Rightarrow> (nat \<Rightarrow> nat) \<Rightarrow> row list \<Rightarrow> path list \<Rightarrow> exn + summary" where
  "deletePhase faults lat rows disk0 =
     (case runParallel lat (map (deleteTask faults) rows) DELETE_CONCURRENCY
             \<lparr> deleteErrors = [], disk = disk0 \<rparr> of
        (deleteResults, st) \<Rightarrow>
          (case tally deleteResults (0, 0) of
             Inl e \<Rightarrow> Inl e
           | Inr (removed, failed) \<Rightarrow>
               Inr \<lparr> removedCount = removed, failedCount = failed,
                     failures = deleteErrors st, remaining = disk st \<rparr>))"


subsection \<open>Auxiliary notions for the size accumulator\<close>

text \<open>What one round of the loop computes, written without accumulators.\<close>

definition listing :: "filesystem \<Rightarrow> path \<Rightarrow> dirent list" where
  "listing fs d = (case readdir fs d of Some entries \<Rightarrow> entries | None \<Rightarrow> [])"

definition plainDirs :: "path \<Rightarrow> dirent list \<Rightarrow> path list" where
  "plainDirs d entries = [d @ [name ent]. ent \<leftarrow> entries, dtype ent = DT_DIR]"

definition entryTasks ::
  "filesystem \<Rightarrow> bool \<Rightarrow> path \<Rightarrow> dirent list \<Rightarrow> (exn + sized option) list" where
  "entryTasks fs follow d entries =
     concat (map (\<lambda>ent.
       case dtype ent of
         DT_LNK \<Rightarrow> if follow then [statTask fs (d @ [name ent])] else []
       | DT_REG \<Rightarrow> [lstatTask fs (d @ [name ent])]
       | _ \<Rightarrow> []) entries)"

fun outSize :: "exn + sized option \<Rightarrow> nat" where
  "outSize (Inr (Some r)) = (if r_isFile r then r_size r else 0)"
| "outSize _ = 0"

fun outDirs :: "exn + sized option \<Rightarrow> path list" where
  "outDirs (Inr (Some r)) = (if r_isDir r then [r_full r] else [])"
| "outDirs _ = []"

definition roundTasks :: "filesystem \<Rightarrow> bool \<Rightarrow> path list \<Rightarrow> (exn + sized option) list" where
  "roundTasks fs follow pending =
     concat (map (\<lambda>d. entryTasks fs follow d (listing fs d)) pending)"

definition roundDirs :: "filesystem \<Rightarrow> bool \<Rightarrow> path list \<Rightarrow> path list" where
  "roundDirs fs follow pending =
     concat (map (\<lambda>d. plainDirs d (listing fs d)) pending) @
     concat (map outDirs (roundTasks fs follow pending))"

definition roundBytes :: "filesystem \<Rightarrow> bool \<Rightarrow> path list \<Rightarrow> nat" where
  "roundBytes fs follow pending = sum_list (map outSize (roundTasks fs follow pending))"

definition entryBytes :: "nat \<Rightarrow> filesystem \<Rightarrow> bool \<Rightarrow> path \<Rightarrow> dirent \<Rightarrow> nat" where
  "entryBytes n fs follow d ent =
     (case dtype ent of
        DT_REG \<Rightarrow> (case lstat fs (d @ [name ent]) of Some st \<Rightarrow> st_size st | None \<Rightarrow> 0)
      | DT_DIR \<Rightarrow> du n fs follow (d @ [name ent])
      | DT_LNK \<Rightarrow>
          if follow then
            (case stat fs (d @ [name ent]) of
               Some st \<Rightarrow>
                 (if st_isFile st then st_size st else 0) +
                 (if st_isDirectory st then du n fs follow (d @ [name ent]) else 0)
             | None \<Rightarrow> 0)
          else 0
      | DT_OTHER \<Rightarrow> 0)"


subsection \<open>Auxiliary notions for the locator\<close>

text \<open>The names the locator never walks into, the three arrays of the entry loop written
  as comprehensions, and what holds of every frontier node and every reported match.\<close>

definition reserved :: "string \<Rightarrow> bool" where
  "reserved nm = (nm = ''node_modules'' \<or> shouldSkipDirName nm)"

definition entryMatches :: "path \<Rightarrow> dirent list \<Rightarrow> path list" where
  "entryMatches d entries =
     [d @ [name ent]. ent \<leftarrow> entries,
        (dtype ent = DT_DIR \<or> dtype ent = DT_LNK) \<and> name ent = ''node_modules'']"

definition entrySubdirs :: "path \<Rightarrow> nat \<Rightarrow> dirent list \<Rightarrow> node list" where
  "entrySubdirs d k entries =
     [\<lparr> dir = d @ [name ent], depth = k + 1 \<rparr>. ent \<leftarrow> entries,
        dtype ent = DT_DIR \<and> \<not> reserved (name ent)]"

definition entryLinks :: "bool \<Rightarrow> path \<Rightarrow> nat \<Rightarrow> dirent list \<Rightarrow> node list" where
  "entryLinks follow d k entries =
     [\<lparr> dir = d @ [name ent], depth = k + 1 \<rparr>. ent \<leftarrow> entries,
        follow \<and> dtype ent = DT_LNK \<and> \<not> reserved (name ent)]"

definition unValue :: "(exn, found) slot \<Rightarrow> found" where
  "unValue s = (case s of Value f \<Rightarrow> f | _ \<Rightarrow> nothing)"

definition frontierOK :: "path \<Rightarrow> node \<Rightarrow> bool" where
  "frontierOK root nd \<longleftrightarrow>
     (\<exists>suffix. dir nd = root @ suffix \<and> depth nd = length suffix \<and> (\<forall>nm\<in>set suffix. \<not> reserved nm))"

definition matchOK :: "path \<Rightarrow> options \<Rightarrow> path \<Rightarrow> bool" where
  "matchOK root opts m \<longleftrightarrow>
     (\<exists>suffix. m = root @ suffix @ [''node_modules''] \<and> (\<forall>nm\<in>set suffix. \<not> reserved nm) \<and>
        \<not> exceedsMaxDepth opts (length suffix))"



subsection \<open>Auxiliary notions for the deletion phase\<close>

text \<open>A slot that the tally counts as removed.\<close>

definition isSuccess :: "(exn, deleted) slot \<Rightarrow> bool" where
  "isSuccess s = (case s of Value r \<Rightarrow> success r | _ \<Rightarrow> False)"

text \<open>The verdict of the platform on one target, on the disk as the phase finds it.\<close>

definition verdict :: "(path \<Rightarrow> nat \<Rightarrow> rm_error option) \<Rightarrow> path list \<Rightarrow> row \<Rightarrow> rm_error option" where
  "verdict faults disk0 r = fst (removeDir faults (nmPath r) disk0)"

definition errorOf :: "(path \<Rightarrow> nat \<Rightarrow> rm_error option) \<Rightarrow> path list \<Rightarrow> row \<Rightarrow> (path \<times> string) list" where
  "errorOf faults disk0 r =
     (case verdict faults disk0 r of None \<Rightarrow> [] | Some e \<Rightarrow> [(nmPath r, message e)])"

text \<open>Targets of which none lies under another (nor equals it).\<close>

definition independent :: "row list \<Rightarrow> bool" where
  "independent rows \<longleftrightarrow>
     distinct (map nmPath rows) \<and>
     (\<forall>a\<in>set rows. \<forall>b\<in>set rows. nmPath a \<noteq> nmPath b \<longrightarrow> \<not> isUnder (nmPath a) (nmPath b))"



subsection \<open>Example file systems and schedules\<close>

text \<open>The units of a level settling in the order they were started.\<close>

definition fifo :: "node list \<Rightarrow> nat \<Rightarrow> nat" where
  "fifo level i = i"

definition entry :: "string \<Rightarrow> dtype \<Rightarrow> dirent" where
  "entry nm t = \<lparr> name = nm, dtype = t \<rparr>"

definition no_stat :: "path \<Rightarrow> stats option" where
  "no_stat p = None"

text \<open>\<^verbatim>\<open>srv/node_modules/pkg/node_modules\<close>: the directory \<^verbatim>\<open>srv/node_modules\<close> can be
  given as the scan root, or met as an entry when \<^verbatim>\<open>srv\<close> is the scan root.\<close>

definition rooted_fs :: filesystem where
  "rooted_fs =
     \<lparr> readdir = map_of
         [([''srv''], [entry ''node_modules'' DT_DIR]),
          ([''srv'', ''node_modules''], [entry ''pkg'' DT_DIR, entry ''index.js'' DT_REG]),
          ([''srv'', ''node_modules'', ''pkg''], [entry ''node_modules'' DT_DIR]),
          ([''srv'', ''node_modules'', ''pkg'', ''node_modules''], [])],
       stat = no_stat, lstat = no_stat, realpath = Some \<rparr>"

definition plainFile :: "nat \<Rightarrow> stats" where
  "plainFile n = \<lparr> st_isDirectory = False, st_isFile = True, st_size = n \<rparr>"

text \<open>A directory with files of 100, 200 and 300 bytes and one empty subdirectory.\<close>

definition sized_fs :: filesystem where
  "sized_fs =
     \<lparr> readdir = map_of
         [([''nm''], [entry ''a.js'' DT_REG, entry ''empty'' DT_DIR, entry ''b.js'' DT_REG,
                      entry ''c.js'' DT_REG]),
          ([''nm'', ''empty''], [])],
       stat = no_stat,
       lstat = map_of
         [([''nm'', ''a.js''], plainFile 100),
          ([''nm'', ''b.js''], plainFile 200),
          ([''nm'', ''c.js''], plainFile 300)],
       realpath = Some \<rparr>"

definition directoryStats :: stats where
  "directoryStats = \<lparr> st_isDirectory = True, st_isFile = False, st_size = 4096 \<rparr>"

text \<open>
  A measured directory holding \<^verbatim>\<open>.git\<close>, \<^verbatim>\<open>node_modules\<close> and \<^verbatim>\<open>.cache\<close>
  (files of 7, 11 and 13 bytes), a symlink to a file of 1000 bytes, a symlink to a
  directory with a file of 5000 bytes, a directory that cannot be listed, a file that
  cannot be stated and a socket.
\<close>

definition mixed_fs :: filesystem where
  "mixed_fs =
     \<lparr> readdir = map_of
         [([''nm''], [entry ''.git'' DT_DIR, entry ''node_modules'' DT_DIR, entry ''.cache'' DT_DIR,
                      entry ''link_file'' DT_LNK, entry ''link_dir'' DT_LNK,
                      entry ''locked'' DT_DIR, entry ''ghost.js'' DT_REG, entry ''sock'' DT_OTHER]),
          ([''nm'', ''.git''], [entry ''HEAD'' DT_REG]),
          ([''nm'', ''node_modules''], [entry ''x.js'' DT_REG]),
          ([''nm'', ''.cache''], [entry ''c'' DT_REG]),
          ([''nm'', ''link_dir''], [entry ''big'' DT_REG])],
       stat = map_of
         [([''nm'', ''link_file''], plainFile 1000),
          ([''nm'', ''link_dir''], directoryStats)],
       lstat = map_of
         [([''nm'', ''.git'', ''HEAD''], plainFile 7),
          ([''nm'', ''node_modules'', ''x.js''], plainFile 11),
          ([''nm'', ''.cache'', ''c''], plainFile 13),
          ([''nm'', ''link_dir'', ''big''], plainFile 5000)],
       realpath = Some \<rparr>"

text \<open>
  A measured directory holding the directory \<^verbatim>\<open>real\<close> with one file of 100 bytes, and
  \<^verbatim>\<open>alias\<close>, a symlink to \<^verbatim>\<open>real\<close>.
\<close>

definition alias_fs :: filesystem where
  "alias_fs =
     \<lparr> readdir = map_of
         [([''nm''], [entry ''real'' DT_DIR, entry ''alias'' DT_LNK]),
          ([''nm'', ''real''], [entry ''f'' DT_REG]),
          ([''nm'', ''alias''], [entry ''f'' DT_REG])],
       stat = map_of [([''nm'', ''alias''], directoryStats)],
       lstat = map_of
         [([''nm'', ''real'', ''f''], plainFile 100),
          ([''nm'', ''alias'', ''f''], plainFile 100)],
       realpath = (\<lambda>p. Some (if take 2 p = [''nm'', ''alias'']
                                 then [''nm'', ''real''] @ drop 2 p else p)) \<rparr>"

text \<open>
  A measured directory holding one file of 10 bytes and \<^verbatim>\<open>self\<close>, a symlink to the
  measured directory itself, on a platform that resolves a path through at most \<open>k\<close>
  symlinks and fails beyond (\<^verbatim>\<open>ELOOP\<close>; Linux has \<open>k = 40\<close>). \<open>selfLinks p\<close> is the
  number of links a path \<^verbatim>\<open>nm/self/.../self\<close> goes through.
\<close>

definition selfLinks :: "path \<Rightarrow> nat option" where
  "selfLinks p =
     (case p of
        [] \<Rightarrow> None
      | r # links \<Rightarrow>
          if r = ''nm'' \<and> list_all (\<lambda>c. c = ''self'') links then Some (length links) else None)"

definition loop_fs :: "nat \<Rightarrow> filesystem" where
  "loop_fs k =
     \<lparr> readdir = (\<lambda>p. case selfLinks p of
                         Some j \<Rightarrow>
                           if j \<le> k then Some [entry ''f'' DT_REG, entry ''self'' DT_LNK] else None
                       | None \<Rightarrow> None),
       stat = (\<lambda>p. case selfLinks p of
                      Some j \<Rightarrow> if j \<le> k then Some directoryStats else None
                    | None \<Rightarrow> None),
       lstat = (\<lambda>p. if p \<noteq> [] \<and> last p = ''f'' then
                       (case selfLinks (butlast p) of
                          Some j \<Rightarrow> if j \<le> k then Some (plainFile 10) else None
                        | None \<Rightarrow> None)
                     else None),
       realpath = (\<lambda>p. case selfLinks p of
                          Some j \<Rightarrow> if j \<le> k then Some [''nm''] else None
                        | None \<Rightarrow> None) \<rparr>"

definition unlimited :: options where
  "unlimited = \<lparr> followSymlinks = False, maxDepth = None \<rparr>"

definition limited :: "int \<Rightarrow> options" where
  "limited m = \<lparr> followSymlinks = False, maxDepth = Some m \<rparr>"

text \<open>\<^verbatim>\<open>proj/a/node_modules\<close>: the only match is two levels below the root.\<close>

definition shallow_fs :: filesystem where
  "shallow_fs =
     \<lparr> readdir = map_of
         [([''proj''], [entry ''a'' DT_DIR, entry ''README.md'' DT_REG]),
          ([''proj'', ''a''], [entry ''node_modules'' DT_DIR]),
          ([''proj'', ''a'', ''node_modules''], [])],
       stat = no_stat, lstat = no_stat, realpath = Some \<rparr>"

text \<open>\<^verbatim>\<open>proj/a/b/node_modules\<close>: the only match is three levels below the root, in
  a directory of depth 2.\<close>

definition deep_fs :: filesystem where
  "deep_fs =
     \<lparr> readdir = map_of
         [([''proj''], [entry ''a'' DT_DIR]),
          ([''proj'', ''a''], [entry ''b'' DT_DIR]),
          ([''proj'', ''a'', ''b''], [entry ''node_modules'' DT_DIR]),
          ([''proj'', ''a'', ''b'', ''node_modules''], [])],
       stat = no_stat, lstat = no_stat, realpath = Some \<rparr>"



text \<open>
  A symlink cycle: \<^verbatim>\<open>proj/a/loop\<close> is a symlink to \<^verbatim>\<open>proj\<close>, and
  \<^verbatim>\<open>proj/a/node_modules\<close> is the only match. Every path through the link resolves:
  \<open>cyclic_real\<close> is the canonical path of a path.
\<close>

definition walk :: "path \<Rightarrow> string list \<Rightarrow> path" where
  "walk start names =
     foldl (\<lambda>cur c. if cur = [''proj'', ''a''] \<and> c = ''loop'' then [''proj''] else cur @ [c])
       start names"

definition cyclic_real :: "path \<Rightarrow> path" where
  "cyclic_real p = (case p of [] \<Rightarrow> [] | r # names \<Rightarrow> walk [r] names)"

definition cyclic_fs :: filesystem where
  "cyclic_fs =
     \<lparr> readdir = (\<lambda>p. map_of
         [([''proj''], [entry ''a'' DT_DIR]),
          ([''proj'', ''a''], [entry ''node_modules'' DT_DIR, entry ''loop'' DT_LNK]),
          ([''proj'', ''a'', ''node_modules''], [])] (cyclic_real p)),
       stat = (\<lambda>p. if cyclic_real p \<in> {[''proj''], [''proj'', ''a''], [''proj'', ''a'', ''node_modules'']}
                   then Some directoryStats else None),
       lstat = no_stat,
       realpath = (\<lambda>p. if cyclic_real p \<in> {[''proj''], [''proj'', ''a''], [''proj'', ''a'', ''node_modules'']}
                   then Some (cyclic_real p) else None) \<rparr>"

definition following :: options where
  "following = \<lparr> followSymlinks = True, maxDepth = None \<rparr>"

text \<open>Five targets with some content, the third of which always fails with a permission
  error; and the same with the second target already gone.\<close>

definition target :: "string \<Rightarrow> path" where
  "target nm = [''w'', nm, ''node_modules'']"

definition rows5 :: "row list" where
  "rows5 = [\<lparr> nmPath = target ''p1'', bytes = 500 \<rparr>, \<lparr> nmPath = target ''p2'', bytes = 400 \<rparr>,
            \<lparr> nmPath = target ''p3'', bytes = 300 \<rparr>, \<lparr> nmPath = target ''p4'', bytes = 200 \<rparr>,
            \<lparr> nmPath = target ''p5'', bytes = 100 \<rparr>]"

definition disk5 :: "path list" where
  "disk5 = [target ''p1'', target ''p1'' @ [''lodash''], target ''p2'', target ''p3'',
            target ''p3'' @ [''left-pad''], target ''p4'', target ''p5'', [''w'', ''p5'', ''src''] ]"

definition denied :: rm_error where
  "denied = \<lparr> code = EPERM, message = ''EPERM: operation not permitted'' \<rparr>"

definition faults5 :: "path \<Rightarrow> nat \<Rightarrow> rm_error option" where
  "faults5 p k = (if p = target ''p3'' then Some denied else None)"

definition lifo :: "nat \<Rightarrow> nat" where
  "lifo i = 5 - i"


section \<open>Properties of the executor\<close>

lemma in_flight_update:
  "w < length ws \<Longrightarrow>
   mset (in_flight (ws[w := x])) + mset (in_flight [ws ! w]) = mset (in_flight [x]) + mset (in_flight ws)"
proof (induction ws arbitrary: w)
  case Nil
  then show ?case by simp
next
  case (Cons a ws)
  show ?case
  proof (cases w)
    case 0
    then show ?thesis by (cases a; cases x) simp_all
  next
    case (Suc v)
    with Cons.prems have "v < length ws" by simp
    from Cons.IH [OF this] Suc show ?thesis by (cases a) simp_all
  qed
qed

lemma unfinished_update:
  "w < length ws \<Longrightarrow>
   unfinished (ws[w := x]) + unfinished [ws ! w] = unfinished [x] + unfinished ws"
proof (induction ws arbitrary: w)
  case Nil
  then show ?case by simp
next
  case (Cons a ws)
  show ?case
  proof (cases w)
    case 0
    then show ?thesis by (simp add: unfinished_def)
  next
    case (Suc v)
    with Cons.prems have "v < length ws" by simp
    from Cons.IH [OF this] Suc show ?thesis by (simp add: unfinished_def)
  qed
qed

lemma in_flight_length_update:
  "w < length ws \<Longrightarrow>
   length (in_flight (ws[w := x])) + length (in_flight [ws ! w]) = length (in_flight [x]) + length (in_flight ws)"
  using in_flight_update [of w ws x, THEN arg_cong, of size] by simp

lemma worker_step_potential:
  assumes "worker_step tasks w p = Some p'"
  shows "pool_potential tasks p = Suc (pool_potential tasks p')"
proof -
  from assms have w: "w < length (workers p)"
    by (auto simp: worker_step_def split: if_splits)
  note fl = in_flight_length_update [OF w] and un = unfinished_update [OF w]
  show ?thesis
  proof (cases "workers p ! w")
    case Ready
    show ?thesis
    proof (cases "index p < length tasks")
      case True
      with assms w Ready have p': "p' = p\<lparr> index := index p + 1,
          workers := (workers p)[w := Awaiting (index p) (tasks ! index p)],
          invoked := invoked p @ [index p] \<rparr>"
        by (simp add: worker_step_def Let_def)
      from fl [of "Awaiting (index p) (tasks ! index p)"] un [of "Awaiting (index p) (tasks ! index p)"] Ready True
      show ?thesis by (simp add: p' pool_potential_def unfinished_def is_Finished_def)
    next
      case False
      with assms w Ready have p': "p' = p\<lparr> workers := (workers p)[w := Finished] \<rparr>"
        by (simp add: worker_step_def)
      from fl [of Finished] un [of Finished] Ready
      show ?thesis by (simp add: p' pool_potential_def unfinished_def is_Finished_def)
    qed
  next
    case (Awaiting i t)
    obtain outcome sh where t: "t (shared p) = (outcome, sh)" by (cases "t (shared p)")
    with assms w Awaiting have p': "p' = p\<lparr> results := (results p)[i := capture outcome],
        shared := sh, workers := (workers p)[w := Ready], settled := settled p @ [i] \<rparr>"
      by (simp add: worker_step_def)
    from fl [of Ready] un [of Ready] Awaiting
    show ?thesis by (simp add: p' pool_potential_def unfinished_def is_Finished_def)
  next
    case Finished
    with assms w show ?thesis by (simp add: worker_step_def)
  qed
qed

lemma pool_run_potential:
  "pool_run tasks sched p = Some p' \<Longrightarrow>
   pool_potential tasks p = length sched + pool_potential tasks p'"
proof (induction sched arbitrary: p)
  case Nil
  then show ?case by simp
next
  case (Cons w sched)
  then obtain q where q: "worker_step tasks w p = Some q" and r: "pool_run tasks sched q = Some p'"
    by (auto split: option.splits)
  from Cons.IH [OF r] worker_step_potential [OF q] show ?case by simp
qed

lemma pool_init_potential:
  "pool_potential tasks (pool_init tasks c sh) = 2 * length tasks + min c (length tasks)"
proof -
  have a: "in_flight (replicate n (Ready :: ('a, 'b, 'c) worker)) = []" for n
    by (induction n) simp_all
  have b: "unfinished (replicate n (Ready :: ('a, 'b, 'c) worker)) = n" for n
    by (induction n) (simp_all add: unfinished_def is_Finished_def)
  show ?thesis by (simp add: pool_potential_def pool_init_def a b)
qed

lemma pool_progress:
  assumes "\<not> all_finished p"
  shows "\<exists>w p'. worker_step tasks w p = Some p'"
proof -
  from assms obtain w where w: "w < length (workers p)" and nf: "\<not> is_Finished (workers p ! w)"
    by (auto simp: all_finished_def list_all_length)
  have "\<exists>p'. worker_step tasks w p = Some p'"
  proof (cases "workers p ! w")
    case Ready
    with w show ?thesis by (simp add: worker_step_def Let_def)
  next
    case (Awaiting i t)
    with w show ?thesis by (cases "t (shared p)") (simp add: worker_step_def)
  next
    case Finished
    with nf show ?thesis by (simp add: is_Finished_def)
  qed
  then show ?thesis by blast
qed

lemma pool_run_append:
  "pool_run tasks (xs @ ys) p =
     (case pool_run tasks xs p of None \<Rightarrow> None | Some q \<Rightarrow> pool_run tasks ys q)"
  by (induction xs arbitrary: p) (auto split: option.splits)

lemma pool_completes:
  "\<exists>sched p'. pool_run tasks sched p = Some p' \<and> all_finished p'"
proof (induction "pool_potential tasks p" arbitrary: p rule: less_induct)
  case less
  show ?case
  proof (cases "all_finished p")
    case True
    have "pool_run tasks [] p = Some p" by simp
    with True show ?thesis by blast
  next
    case False
    from pool_progress [OF this] obtain w q where q: "worker_step tasks w p = Some q" by blast
    from worker_step_potential [OF q] have "pool_potential tasks q < pool_potential tasks p" by simp
    from less [OF this] obtain sched p' where "pool_run tasks sched q = Some p'" "all_finished p'"
      by blast
    with q have "pool_run tasks (w # sched) p = Some p'" by simp
    with \<open>all_finished p'\<close> show ?thesis by blast
  qed
qed

lemma settleInOrder_append:
  "settleInOrder tasks (xs @ ys) st = settleInOrder tasks ys (settleInOrder tasks xs st)"
proof (induction xs arbitrary: st)
  case Nil
  then show ?case by simp
next
  case (Cons i xs)
  obtain res sh where st: "st = (res, sh)" by (cases st)
  obtain outcome sh' where t: "(tasks ! i) sh = (outcome, sh')" by (cases "(tasks ! i) sh")
  from Cons.IH show ?case by (simp add: st t)
qed

lemma settleInOrder_length:
  "length (fst (settleInOrder tasks order (res, sh))) = length res"
proof (induction order arbitrary: res sh)
  case Nil
  then show ?case by simp
next
  case (Cons i order)
  obtain outcome sh' where t: "(tasks ! i) sh = (outcome, sh')" by (cases "(tasks ! i) sh")
  from Cons.IH [of "res[i := capture outcome]" sh'] show ?case by (simp add: t)
qed

text \<open>What holds of a slot after the tasks of \<open>order\<close> have settled.\<close>

lemma settleInOrder_slot:
  assumes "i < length res"
  shows "(i \<in> set order \<longrightarrow> (\<exists>s. fst (settleInOrder tasks order (res, sh)) ! i = capture (fst ((tasks ! i) s))))
       \<and> (i \<notin> set order \<longrightarrow> fst (settleInOrder tasks order (res, sh)) ! i = res ! i)"
  using assms
proof (induction order arbitrary: res sh)
  case Nil
  then show ?case by simp
next
  case (Cons j order)
  obtain outcome sh' where t: "(tasks ! j) sh = (outcome, sh')" by (cases "(tasks ! j) sh")
  from Cons.prems have len: "i < length (res[j := capture outcome])" by simp
  note IH = Cons.IH [OF len, of sh']
  show ?case
  proof (cases "i \<in> set order")
    case True
    with IH show ?thesis by (simp add: t)
  next
    case False
    with IH have keep: "fst (settleInOrder tasks order (res[j := capture outcome], sh')) ! i
        = (res[j := capture outcome]) ! i" by simp
    show ?thesis
    proof (cases "i = j")
      case True
      with keep Cons.prems t have "fst (settleInOrder tasks (j # order) (res, sh)) ! i
          = capture (fst ((tasks ! i) sh))" by simp
      with True show ?thesis by auto
    next
      case neq: False
      with keep False show ?thesis by (simp add: t)
    qed
  qed
qed

lemma pool_inv_init: "pool_inv tasks c sh0 (pool_init tasks c sh0)"
proof -
  have a: "in_flight (replicate n (Ready :: ('a, 'b, 'c) worker)) = []" for n
    by (induction n) simp_all
  show ?thesis by (auto simp: pool_inv_def pool_init_def a)
qed

lemma in_flight_member:
  "w < length ws \<Longrightarrow> ws ! w = Awaiting i t \<Longrightarrow> i \<in> set (in_flight ws)"
proof (induction ws arbitrary: w)
  case Nil
  then show ?case by simp
next
  case (Cons a ws)
  then show ?case by (cases w; cases a) auto
qed

lemma pool_inv_step:
  assumes inv: "pool_inv tasks c sh0 p" and step: "worker_step tasks w p = Some p'"
  shows "pool_inv tasks c sh0 p'"
proof -
  from step have w: "w < length (workers p)"
    by (auto simp: worker_step_def split: if_splits)
  note fl = in_flight_update [OF w]
  from inv have len: "length (workers p) = min c (length tasks)"
    and idx: "index p \<le> length tasks"
    and inv_k: "invoked p = [0..<index p]"
    and ms: "mset (settled p) + mset (in_flight (workers p)) = mset [0..<index p]"
    and tk: "\<And>v i t. v < length (workers p) \<Longrightarrow> workers p ! v = Awaiting i t \<Longrightarrow> t = tasks ! i"
    and fin: "(\<exists>v<length (workers p). workers p ! v = Finished) \<Longrightarrow> index p = length tasks"
    and res: "(results p, shared p) = settleInOrder tasks (settled p) (replicate (length tasks) Hole, sh0)"
    by (auto simp: pool_inv_def)
  show ?thesis
  proof (cases "workers p ! w")
    case Ready
    show ?thesis
    proof (cases "index p < length tasks")
      case True
      with step w Ready have p': "p' = p\<lparr> index := index p + 1,
          workers := (workers p)[w := Awaiting (index p) (tasks ! index p)],
          invoked := invoked p @ [index p] \<rparr>"
        by (simp add: worker_step_def Let_def)
      from fl [of "Awaiting (index p) (tasks ! index p)"] Ready ms
      have ms': "mset (settled p) + mset (in_flight ((workers p)[w := Awaiting (index p) (tasks ! index p)]))
          = mset [0..<Suc (index p)]" by simp
      have tk': "t = tasks ! i"
        if "v < length (workers p)" "(workers p)[w := Awaiting (index p) (tasks ! index p)] ! v = Awaiting i t"
        for v i t
        using that tk [of v i t] w by (cases "v = w") auto
      have nofin: "(workers p)[w := Awaiting (index p) (tasks ! index p)] ! v \<noteq> Finished"
        if "v < length (workers p)" for v
        using that fin True w by (cases "v = w") auto
      show ?thesis
        unfolding pool_inv_def p'
        using len idx inv_k ms' tk' nofin res True by auto
    next
      case False
      with step w Ready have p': "p' = p\<lparr> workers := (workers p)[w := Finished] \<rparr>"
        by (simp add: worker_step_def)
      from fl [of Finished] Ready ms
      have ms': "mset (settled p) + mset (in_flight ((workers p)[w := Finished])) = mset [0..<index p]"
        by simp
      have tk': "t = tasks ! i"
        if "v < length (workers p)" "(workers p)[w := Finished] ! v = Awaiting i t" for v i t
        using that tk [of v i t] w by (cases "v = w") auto
      from False idx have "index p = length tasks" by simp
      then show ?thesis
        unfolding pool_inv_def p'
        using len inv_k ms' tk' res by auto
    qed
  next
    case (Awaiting i t)
    obtain outcome sh where t: "t (shared p) = (outcome, sh)" by (cases "t (shared p)")
    with step w Awaiting have p': "p' = p\<lparr> results := (results p)[i := capture outcome],
        shared := sh, workers := (workers p)[w := Ready], settled := settled p @ [i] \<rparr>"
      by (simp add: worker_step_def)
    from tk [OF w Awaiting] have ti: "t = tasks ! i" .
    from fl [of Ready] Awaiting
    have e: "mset (in_flight (workers p)) = add_mset i (mset (in_flight ((workers p)[w := Ready])))"
      by simp
    have ms': "mset (settled p @ [i]) + mset (in_flight ((workers p)[w := Ready])) = mset [0..<index p]"
      using ms unfolding e by simp
    have tk': "t' = tasks ! j"
      if "v < length (workers p)" "(workers p)[w := Ready] ! v = Awaiting j t'" for v j t'
      using that tk [of v j t'] w by (cases "v = w") auto
    have fin': "index p = length tasks"
      if "v < length (workers p)" "(workers p)[w := Ready] ! v = Finished" for v
      using that fin w by (cases "v = w") auto
    have res': "((results p)[i := capture outcome], sh)
        = settleInOrder tasks (settled p @ [i]) (replicate (length tasks) Hole, sh0)"
      using res [symmetric] t ti by (simp add: settleInOrder_append)
    show ?thesis
      unfolding pool_inv_def p'
      using len idx inv_k ms' tk' fin' res' by auto
  next
    case Finished
    with step w show ?thesis by (simp add: worker_step_def)
  qed
qed

lemma pool_inv_run:
  "pool_inv tasks c sh0 p \<Longrightarrow> pool_run tasks sched p = Some p' \<Longrightarrow> pool_inv tasks c sh0 p'"
proof (induction sched arbitrary: p)
  case Nil
  then show ?case by simp
next
  case (Cons w sched)
  then obtain q where q: "worker_step tasks w p = Some q" and r: "pool_run tasks sched q = Some p'"
    by (auto split: option.splits)
  from Cons.IH [OF pool_inv_step [OF Cons.prems(1) q] r] show ?case .
qed

lemma in_flight_all_finished: "list_all is_Finished ws \<Longrightarrow> in_flight ws = []"
proof (induction ws)
  case Nil
  then show ?case by simp
next
  case (Cons a ws)
  then show ?case by (cases a) (simp_all add: is_Finished_def)
qed

lemma pool_inv_final:
  assumes inv: "pool_inv tasks c sh0 p" and fin: "all_finished p" and c: "1 \<le> c"
  shows "index p = length tasks" and "mset (settled p) = mset [0..<length tasks]"
proof -
  show i: "index p = length tasks"
  proof (cases "length tasks = 0")
    case True
    with inv show ?thesis by (simp add: pool_inv_def)
  next
    case False
    with c inv have "0 < length (workers p)" by (simp add: pool_inv_def)
    moreover from this fin have "workers p ! 0 = Finished"
      by (cases "workers p ! 0") (auto simp: all_finished_def list_all_length is_Finished_def)
    ultimately show ?thesis using inv by (auto simp: pool_inv_def)
  qed
  from fin have "in_flight (workers p) = []"
    by (simp add: all_finished_def in_flight_all_finished)
  with inv i show "mset (settled p) = mset [0..<length tasks]" by (simp add: pool_inv_def)
qed

lemma permutation_by_latency:
  assumes "mset order = mset [0..<n]"
  shows "\<exists>lat :: nat \<Rightarrow> nat. sort_key lat [0..<n] = order"
proof -
  define lat where "lat i = length (takeWhile (\<lambda>x. x \<noteq> i) order)" for i
  from assms have d: "distinct order" by (metis distinct_upt mset_eq_imp_distinct_iff)
  from assms have len: "length order = n" by (metis length_upt mset_eq_length minus_nat.diff_0)
  have pos: "lat (order ! j) = j" if "j < length order" for j
  proof -
    have "takeWhile (\<lambda>x. x \<noteq> order ! j) order = take j order"
    proof (rule takeWhile_eq_take_P_nth)
      fix i assume "i < j" "i < length order"
      with that d show "order ! i \<noteq> order ! j" by (simp add: nth_eq_iff_index_eq)
    next
      show "\<not> order ! j \<noteq> order ! j" by simp
    qed
    with that show ?thesis by (simp add: lat_def)
  qed
  have m: "map lat order = [0..<n]"
    by (rule nth_equalityI) (simp_all add: len pos)
  have inj: "inj_on lat (set order)"
  proof (rule inj_onI)
    fix x y assume "x \<in> set order" "y \<in> set order" "lat x = lat y"
    then obtain i j where "i < length order" "order ! i = x" "j < length order" "order ! j = y"
      by (auto simp: in_set_conv_nth)
    with pos \<open>lat x = lat y\<close> show "x = y" by metis
  qed
  have "sort_key lat [0..<n] = order"
  proof (rule properties_for_sort_key)
    show "mset order = mset [0..<n]" by (rule assms)
    show "sorted (map lat order)" by (simp add: m)
    fix k assume k: "k \<in> set order"
    from assms have so: "set order = {0..<n}" by (metis mset_eq_setD set_upt)
    have "filter (\<lambda>x. lat k = lat x) order = filter (\<lambda>x. k = x) order"
      by (rule filter_cong) (use inj k in \<open>auto dest: inj_onD\<close>)
    moreover have "filter (\<lambda>x. lat k = lat x) [0..<n] = filter (\<lambda>x. k = x) [0..<n]"
      by (rule filter_cong) (use inj k so in \<open>auto dest: inj_onD\<close>)
    moreover have "mset (filter (\<lambda>x. k = x) order) = mset (filter (\<lambda>x. k = x) [0..<n])"
      using assms by simp
    moreover have "filter (\<lambda>x. k = x) xs = replicate (count (mset xs) k) k" for xs :: "nat list"
      by (induction xs) auto
    ultimately show "filter (\<lambda>x. lat k = lat x) order = filter (\<lambda>x. lat k = lat x) [0..<n]"
      using assms by simp
  qed
  then show ?thesis by blast
qed

lemma set_sort_key_upt: "set (sort_key lat [0..<n]) = {0..<n}"
  by simp

lemma runParallel_slots:
  assumes "1 \<le> c" and "runParallel lat tasks c sh = (res, sh')"
  shows "length res = length tasks"
    and "i < length tasks \<Longrightarrow> \<exists>s. res ! i = capture (fst ((tasks ! i) s))"
proof -
  show l: "length res = length tasks"
    using assms(2) settleInOrder_length [of tasks "sort_key lat [0..<length tasks]" "replicate (length tasks) Hole" sh]
    by (auto simp: runParallel_def split: if_splits)
  assume i: "i < length tasks"
  with assms have r: "res = fst (settleInOrder tasks (sort_key lat [0..<length tasks])
      (replicate (length tasks) Hole, sh))"
    by (auto simp: runParallel_def split: if_splits)
  from i have "i \<in> set (sort_key lat [0..<length tasks])" by simp
  with settleInOrder_slot [of i "replicate (length tasks) Hole" "sort_key lat [0..<length tasks]" tasks sh] i
  show "\<exists>s. res ! i = capture (fst ((tasks ! i) s))"
    unfolding r by simp
qed

lemma settleInOrder_pure:
  assumes "set order = {0..<length outcomes}" and "length res = length outcomes"
  shows "settleInOrder (map pure_task outcomes) order (res, sh)
       = (map capture outcomes, sh)"
proof -
  let ?T = "map pure_task outcomes"
  have sh: "snd (settleInOrder ?T order' (res', sh)) = sh"
    if "set order' \<subseteq> {0..<length outcomes}" for order' res'
    using that
  proof (induction order' arbitrary: res')
    case Nil
    then show ?case by simp
  next
    case (Cons j order')
    then show ?case by (simp add: pure_task_def)
  qed
  have "fst (settleInOrder ?T order (res, sh)) = map capture outcomes"
  proof (rule nth_equalityI)
    show "length (fst (settleInOrder ?T order (res, sh))) = length (map capture outcomes)"
      by (simp add: settleInOrder_length assms)
  next
    fix i assume "i < length (fst (settleInOrder ?T order (res, sh)))"
    then have i: "i < length outcomes" by (simp add: settleInOrder_length assms)
    with assms have "i \<in> set order" "i < length res" by auto
    with settleInOrder_slot [of i res order ?T sh] i
    show "fst (settleInOrder ?T order (res, sh)) ! i = map capture outcomes ! i"
      by (auto simp: pure_task_def)
  qed
  with sh [of order res] assms show ?thesis
    by (cases "settleInOrder ?T order (res, sh)") auto
qed

lemma runParallel_pure:
  "runParallel lat (map pure_task outcomes) c sh =
     (if c = 0 then replicate (length outcomes) Hole else map capture outcomes, sh)"
proof (cases "min c (length outcomes) = 0")
  case True
  then show ?thesis by (cases "c = 0") (auto simp: runParallel_def min_def split: if_splits)
next
  case False
  then show ?thesis
    by (auto simp: runParallel_def settleInOrder_pure min_def split: if_splits)
qed

lemma runParallelPure_eq:
  "runParallelPure outcomes c =
     (if c = 0 then replicate (length outcomes) Hole else map capture outcomes)"
  by (simp add: runParallelPure_def runParallel_pure)

lemma pool_final_summary:
  assumes run: "pool_run tasks sched (pool_init tasks c sh) = Some p" and fin: "all_finished p"
  shows "\<exists>lat. (results p, shared p) = runParallel lat tasks c sh"
proof (cases "min c (length tasks) = 0")
  case True
  then have nw: "workers (pool_init tasks c sh) = []" by (simp add: pool_init_def)
  have "sched = []"
  proof (cases sched)
    case Nil
    then show ?thesis .
  next
    case (Cons w ws)
    with run nw show ?thesis by (simp add: worker_step_def)
  qed
  with run have "p = pool_init tasks c sh" by simp
  with True show ?thesis by (simp add: runParallel_def pool_init_def)
next
  case False
  then have c: "1 \<le> c" by (cases c) simp_all
  from pool_inv_run [OF pool_inv_init run] have inv: "pool_inv tasks c sh p" .
  from pool_inv_final(2) [OF inv fin c] permutation_by_latency
  obtain lat :: "nat \<Rightarrow> nat" where "sort_key lat [0..<length tasks] = settled p" by blast
  with inv False have "(results p, shared p) = runParallel lat tasks c sh"
    unfolding pool_inv_def runParallel_def by presburger
  then show ?thesis by blast
qed

lemma pool_final_slots:
  assumes run: "pool_run tasks sched (pool_init tasks c sh) = Some p" and fin: "all_finished p"
    and c: "1 \<le> c"
  shows "length (results p) = length tasks"
    and "i < length tasks \<Longrightarrow> \<exists>s. results p ! i = capture (fst ((tasks ! i) s))"
proof -
  from pool_final_summary [OF run fin] obtain lat
    where "runParallel lat tasks c sh = (results p, shared p)" by metis
  from runParallel_slots [OF c this]
  show "length (results p) = length tasks"
    and "i < length tasks \<Longrightarrow> \<exists>s. results p ! i = capture (fst ((tasks ! i) s))"
    by blast+
qed

lemma in_flight_le: "length (in_flight ws) \<le> length ws"
proof (induction ws)
  case Nil
  then show ?case by simp
next
  case (Cons a ws)
  then show ?case by (cases a) simp_all
qed

subsection \<open>Claims about the executor\<close>

text \<open>
  Claim C1. For every list of tasks and every limit of at least 1, \<^verbatim>\<open>runParallel\<close>
  returns: some schedule runs every worker to its end, no schedule is longer than
  \<open>2 * N + min C N\<close> steps, and a pool that has not finished always has a worker that
  can step. Whatever the schedule (the completion order), the returned array has length
  \<open>N\<close> and slot \<open>i\<close> holds the outcome of task \<open>i\<close>: its value, or the wrapper around
  the error it threw; a task whose outcome does not depend on the shared state has exactly
  that outcome in its slot. The model has no rejecting step: an error of a task becomes a
  \<open>Captured\<close> slot and the other tasks still settle. The result is the one the summary
  \<open>runParallel\<close> gives for some latencies.
\<close>

theorem runParallel_order_alignment:
  "1 \<le> concurrency \<Longrightarrow>
     (\<exists>sched out. runParallel_sched tasks concurrency sched sh = Some out) \<and>
     (\<forall>sched res sh'. runParallel_sched tasks concurrency sched sh = Some (res, sh') \<longrightarrow>
         length res = length tasks \<and>
         (\<forall>i<length tasks. \<exists>s. res ! i = capture (fst ((tasks ! i) s))) \<and>
         (\<forall>i<length tasks. \<forall>outcome. (\<forall>s. fst ((tasks ! i) s) = outcome) \<longrightarrow> res ! i = capture outcome) \<and>
         (\<exists>lat. runParallel lat tasks concurrency sh = (res, sh'))) \<and>
     (\<forall>sched p. pool_run tasks sched (pool_init tasks concurrency sh) = Some p \<longrightarrow>
         length sched \<le> 2 * length tasks + min concurrency (length tasks) \<and>
         (\<not> all_finished p \<longrightarrow> (\<exists>w p'. worker_step tasks w p = Some p')))"
proof (intro conjI allI impI)
  from pool_completes [of tasks "pool_init tasks concurrency sh"]
  obtain sched p where "pool_run tasks sched (pool_init tasks concurrency sh) = Some p" "all_finished p"
    by blast
  then have "runParallel_sched tasks concurrency sched sh = Some (results p, shared p)"
    by (simp add: runParallel_sched_def)
  then show "\<exists>sched out. runParallel_sched tasks concurrency sched sh = Some out" by blast
next
  fix sched res sh'
  assume c: "1 \<le> concurrency"
    and r: "runParallel_sched tasks concurrency sched sh = Some (res, sh')"
  then obtain p where run: "pool_run tasks sched (pool_init tasks concurrency sh) = Some p"
    and fin: "all_finished p" and res: "res = results p" and sh': "sh' = shared p"
    by (auto simp: runParallel_sched_def split: option.splits if_splits)
  from pool_final_slots(1) [OF run fin c] res show "length res = length tasks" by simp
  from pool_final_summary [OF run fin] res sh'
  show "\<exists>lat. runParallel lat tasks concurrency sh = (res, sh')" by metis
  {
    fix i assume i: "i < length tasks"
    from pool_final_slots(2) [OF run fin c i] res
    show "\<exists>s. res ! i = capture (fst ((tasks ! i) s))" by simp
    fix outcome assume "\<forall>s. fst ((tasks ! i) s) = outcome"
    with pool_final_slots(2) [OF run fin c i] res
    show "res ! i = capture outcome" by auto
  }
next
  fix sched p
  assume run: "pool_run tasks sched (pool_init tasks concurrency sh) = Some p"
  from pool_run_potential [OF run]
  show "length sched \<le> 2 * length tasks + min concurrency (length tasks)"
    by (simp add: pool_init_potential)
  assume "\<not> all_finished p"
  from pool_progress [OF this] show "\<exists>w p'. worker_step tasks w p = Some p'" .
qed

text \<open>Three tasks, the second of which throws, under two workers.\<close>

theorem runParallel_order_alignment_witness:
  "(1::nat) \<le> 2 \<and>
   runParallel_sched demo_tasks 2 [0, 1, 1, 1, 0, 0, 1, 1] ()
     = Some ([Value 10, Captured ''boom'', Value 30], ()) \<and>
   (\<exists>lat. runParallel lat demo_tasks 2 () = ([Value 10, Captured ''boom'', Value 30], ()))"
proof -
  have c: "(1::nat) \<le> 2" by simp
  have r: "runParallel_sched demo_tasks 2 [0, 1, 1, 1, 0, 0, 1, 1] ()
     = Some ([Value 10, Captured ''boom'', Value 30], ())"
    by (simp add: runParallel_sched_def pool_init_def worker_step_def demo_tasks_def pure_task_def
      all_finished_def is_Finished_def numeral_2_eq_2 numeral_3_eq_3)
  from runParallel_order_alignment [OF c, of demo_tasks "()"] r
  have "\<exists>lat. runParallel lat demo_tasks 2 () = ([Value 10, Captured ''boom'', Value 30], ())"
    by blast
  with c r show ?thesis by blast
qed

text \<open>
  Claim C4. In every state a call can reach, the number of tasks in flight is at most
  \<open>min C N\<close>, no two workers hold the same index, and the indices claimed so far are
  \<open>0, 1, \<dots>, index - 1\<close> in this order, each once and none skipped. When the call
  returns (with a limit of at least 1) every index below \<open>N\<close> has been claimed once and
  every task has settled once.
\<close>

theorem runParallel_concurrency_ceiling:
  "pool_run tasks sched (pool_init tasks concurrency sh) = Some p \<Longrightarrow>
     length (in_flight (workers p)) \<le> min concurrency (length tasks) \<and>
     distinct (in_flight (workers p)) \<and>
     invoked p = [0..<index p] \<and>
     index p \<le> length tasks \<and>
     (1 \<le> concurrency \<longrightarrow> all_finished p \<longrightarrow>
        invoked p = [0..<length tasks] \<and> mset (settled p) = mset [0..<length tasks])"
proof -
  assume run: "pool_run tasks sched (pool_init tasks concurrency sh) = Some p"
  from pool_inv_run [OF pool_inv_init run] have inv: "pool_inv tasks concurrency sh p" .
  from inv in_flight_le [of "workers p"]
  have a: "length (in_flight (workers p)) \<le> min concurrency (length tasks)"
    by (simp add: pool_inv_def)
  from inv have "mset (settled p @ in_flight (workers p)) = mset [0..<index p]"
    by (simp add: pool_inv_def)
  then have "distinct (settled p @ in_flight (workers p))"
    by (metis distinct_upt mset_eq_imp_distinct_iff)
  then have b: "distinct (in_flight (workers p))" by simp
  from inv have c: "invoked p = [0..<index p]" and d: "index p \<le> length tasks"
    by (simp_all add: pool_inv_def)
  have e: "invoked p = [0..<length tasks] \<and> mset (settled p) = mset [0..<length tasks]"
    if "1 \<le> concurrency" "all_finished p"
    using pool_inv_final [OF inv that(2) that(1)] c by simp
  from a b c d e show ?thesis by blast
qed

theorem runParallel_concurrency_ceiling_witness:
  "\<exists>p. pool_run demo_tasks [0, 1, 1, 1, 0, 0, 1, 1] (pool_init demo_tasks 2 ()) = Some p \<and>
       (1::nat) \<le> 2 \<and> all_finished p \<and>
       length (in_flight (workers p)) \<le> min 2 (length demo_tasks) \<and>
       invoked p = [0..<length demo_tasks] \<and>
       mset (settled p) = mset [0..<length demo_tasks]"
proof -
  obtain p where p: "pool_run demo_tasks [0, 1, 1, 1, 0, 0, 1, 1] (pool_init demo_tasks 2 ()) = Some p"
    and f: "all_finished p"
    by (simp add: pool_init_def worker_step_def demo_tasks_def pure_task_def numeral_2_eq_2
        numeral_3_eq_3 all_finished_def is_Finished_def)
  have c: "(1::nat) \<le> 2" by simp
  from runParallel_concurrency_ceiling [OF p] f p c show ?thesis by blast
qed


section \<open>Properties of the size accumulator\<close>

lemma runParallelPure_DIR: "runParallelPure outcomes DIR_CONCURRENCY = map capture outcomes"
  by (simp add: runParallelPure_eq DIR_CONCURRENCY_def)

lemma runParallelPure_STAT: "runParallelPure outcomes STAT_CONCURRENCY = map capture outcomes"
  by (simp add: runParallelPure_eq STAT_CONCURRENCY_def)

lemma plainDirs_simps:
  "plainDirs d [] = []"
  "plainDirs d (ent # entries) =
     (if dtype ent = DT_DIR then [d @ [name ent] ] else []) @ plainDirs d entries"
  by (simp_all add: plainDirs_def)

lemma entryTasks_simps:
  "entryTasks fs follow d [] = []"
  "entryTasks fs follow d (ent # entries) =
     (case dtype ent of
         DT_LNK \<Rightarrow> if follow then [statTask fs (d @ [name ent])] else []
       | DT_REG \<Rightarrow> [lstatTask fs (d @ [name ent])]
       | _ \<Rightarrow> []) @ entryTasks fs follow d entries"
  by (simp_all add: entryTasks_def)

lemma sortEntries_eq:
  "sortEntries fs follow d entries (nextDirs, statTasks) =
     (nextDirs @ plainDirs d entries, statTasks @ entryTasks fs follow d entries)"
proof -
  have T: "sortEntries fs True d entries (nd, st) =
      (nd @ plainDirs d entries, st @ entryTasks fs True d entries)" for nd st
  proof (induction entries arbitrary: nd st)
    case Nil
    then show ?case by (simp add: plainDirs_simps entryTasks_simps)
  next
    case (Cons ent entries)
    show ?case
      by (cases "dtype ent")
        (simp_all add: Cons.IH Let_def isSymbolicLink_def isDirectory_def isFile_def
          plainDirs_simps entryTasks_simps)
  qed
  have F: "sortEntries fs False d entries (nd, st) =
      (nd @ plainDirs d entries, st @ entryTasks fs False d entries)" for nd st
  proof (induction entries arbitrary: nd st)
    case Nil
    then show ?case by (simp add: plainDirs_simps entryTasks_simps)
  next
    case (Cons ent entries)
    show ?case
      by (cases "dtype ent")
        (simp_all add: Cons.IH Let_def isSymbolicLink_def isDirectory_def isFile_def
          plainDirs_simps entryTasks_simps)
  qed
  show ?thesis by (cases follow) (simp_all add: T F)
qed

lemma sortListings_eq:
  "sortListings fs follow (map capture (map (dirTask fs) pending)) (nextDirs, statTasks) =
     Inr (nextDirs @ concat (map (\<lambda>d. plainDirs d (listing fs d)) pending),
          statTasks @ roundTasks fs follow pending)"
proof (induction pending arbitrary: nextDirs statTasks)
  case Nil
  then show ?case by (simp add: roundTasks_def)
next
  case (Cons d pending)
  have "capture (dirTask fs d) = Value (d, listing fs d)"
    by (simp add: dirTask_def listing_def)
  then show ?case
    using Cons.IH by (simp add: sortEntries_eq roundTasks_def)
qed

lemma addStats_eq:
  "addStats (map capture outs) (tot, nextDirs) =
     (tot + sum_list (map outSize outs), nextDirs @ concat (map outDirs outs))"
proof (induction outs arbitrary: tot nextDirs)
  case Nil
  then show ?case by simp
next
  case (Cons out outs)
  show ?case
  proof (cases out)
    case (Inl e)
    then show ?thesis by (simp add: Cons.IH)
  next
    case (Inr r)
    then show ?thesis by (cases r) (simp_all add: Cons.IH)
  qed
qed

lemma getDirSizeBytes_loop_round:
  assumes "pending \<noteq> []"
  shows "getDirSizeBytes_loop fs follow tot pending =
         getDirSizeBytes_loop fs follow (tot + roundBytes fs follow pending)
           (roundDirs fs follow pending)"
  using assms
  by (subst getDirSizeBytes_loop.simps, cases "roundTasks fs follow pending = []")
    (simp_all add: runParallelPure_DIR runParallelPure_STAT sortListings_eq addStats_eq
      roundBytes_def roundDirs_def del: map_map)

lemma getDirSizeBytes_loop_Nil: "getDirSizeBytes_loop fs follow tot [] = Some (Inr tot)"
  by (subst getDirSizeBytes_loop.simps) simp

text \<open>The bytes of one directory, split as the round splits them.\<close>

lemma du_Suc_entryBytes:
  "du (Suc n) fs follow d = sum_list (map (entryBytes n fs follow d) (listing fs d))"
  by (cases "readdir fs d") (simp_all add: listing_def entryBytes_def [abs_def])

lemma entryBytes_split:
  "entryBytes n fs follow d ent =
     sum_list (map outSize (entryTasks fs follow d [ent])) +
     sum_list (map (du n fs follow) (plainDirs d [ent])) +
     sum_list (map (du n fs follow) (concat (map outDirs (entryTasks fs follow d [ent]))))"
  by (cases "dtype ent"; cases follow)
    (simp_all add: entryBytes_def entryTasks_simps plainDirs_simps statTask_def lstatTask_def
      split: option.splits)

lemma entryTasks_append:
  "entryTasks fs follow d (xs @ ys) = entryTasks fs follow d xs @ entryTasks fs follow d ys"
  by (simp add: entryTasks_def)

lemma plainDirs_append: "plainDirs d (xs @ ys) = plainDirs d xs @ plainDirs d ys"
  by (simp add: plainDirs_def)

lemma du_Suc_split:
  "du (Suc n) fs follow d =
     sum_list (map outSize (entryTasks fs follow d (listing fs d))) +
     sum_list (map (du n fs follow) (plainDirs d (listing fs d))) +
     sum_list (map (du n fs follow) (concat (map outDirs (entryTasks fs follow d (listing fs d)))))"
proof -
  have "sum_list (map (entryBytes n fs follow d) entries) =
     sum_list (map outSize (entryTasks fs follow d entries)) +
     sum_list (map (du n fs follow) (plainDirs d entries)) +
     sum_list (map (du n fs follow) (concat (map outDirs (entryTasks fs follow d entries))))"
    for entries
  proof (induction entries)
    case Nil
    then show ?case by (simp add: entryTasks_simps plainDirs_simps)
  next
    case (Cons ent entries)
    have "entryTasks fs follow d (ent # entries) =
        entryTasks fs follow d [ent] @ entryTasks fs follow d entries"
      and "plainDirs d (ent # entries) = plainDirs d [ent] @ plainDirs d entries"
      using entryTasks_append [of fs follow d "[ent]" entries] plainDirs_append [of d "[ent]" entries]
      by simp_all
    then show ?case
      using Cons.IH entryBytes_split [of n fs follow d ent] by simp
  qed
  from this [of "listing fs d"] show ?thesis by (simp only: du_Suc_entryBytes)
qed

lemma du_round:
  "sum_list (map (du (Suc n) fs follow) pending) =
     roundBytes fs follow pending + sum_list (map (du n fs follow) (roundDirs fs follow pending))"
proof (induction pending)
  case Nil
  then show ?case by (simp add: roundBytes_def roundDirs_def roundTasks_def)
next
  case (Cons d pending)
  have "roundBytes fs follow (d # pending) =
      sum_list (map outSize (entryTasks fs follow d (listing fs d))) + roundBytes fs follow pending"
    by (simp add: roundBytes_def roundTasks_def)
  moreover have "sum_list (map (du n fs follow) (roundDirs fs follow (d # pending))) =
      sum_list (map (du n fs follow) (plainDirs d (listing fs d))) +
      sum_list (map (du n fs follow) (concat (map outDirs (entryTasks fs follow d (listing fs d))))) +
      sum_list (map (du n fs follow) (roundDirs fs follow pending))"
    by (simp add: roundDirs_def roundTasks_def)
  ultimately show ?case
    using Cons.IH du_Suc_split [of n fs follow d] by simp
qed

lemma roundDirs_longer:
  assumes "\<forall>p\<in>set pending. k \<le> length p"
  shows "\<forall>q\<in>set (roundDirs fs follow pending). Suc k \<le> length q"
proof -
  have a: "\<forall>q\<in>set (plainDirs d entries). length q = Suc (length d)" for d entries
    by (auto simp: plainDirs_def)
  have b: "\<forall>t\<in>set (entryTasks fs follow d entries). \<forall>q\<in>set (outDirs t). length q = Suc (length d)"
    for d entries
    by (auto simp: entryTasks_def statTask_def lstatTask_def split: dtype.splits option.splits if_splits)
  show ?thesis
    using assms a b by (fastforce simp: roundDirs_def roundTasks_def)
qed

lemma roundDirs_unlistable:
  assumes "\<forall>p\<in>set pending. readdir fs p = None"
  shows "roundDirs fs follow pending = []" and "roundBytes fs follow pending = 0"
  using assms
  by (auto simp: roundDirs_def roundBytes_def roundTasks_def listing_def plainDirs_def entryTasks_def)

lemma getDirSizeBytes_loop_du:
  assumes "\<forall>p\<in>set pending. k \<le> length p"
    and "\<forall>p. k + n \<le> length p \<longrightarrow> readdir fs p = None"
  shows "getDirSizeBytes_loop fs follow tot pending =
         Some (Inr (tot + sum_list (map (du n fs follow) pending)))"
  using assms
proof (induction n arbitrary: tot pending k)
  case 0
  show ?case
  proof (cases "pending = []")
    case True
    then show ?thesis by (simp add: getDirSizeBytes_loop_Nil)
  next
    case False
    from 0 have "\<forall>p\<in>set pending. readdir fs p = None" by simp
    from roundDirs_unlistable [OF this] getDirSizeBytes_loop_round [OF False]
    show ?thesis by (simp add: getDirSizeBytes_loop_Nil)
  qed
next
  case (Suc n)
  show ?case
  proof (cases "pending = []")
    case True
    then show ?thesis by (simp add: getDirSizeBytes_loop_Nil)
  next
    case False
    from roundDirs_longer Suc.prems(1)
    have l: "\<forall>q\<in>set (roundDirs fs follow pending). Suc k \<le> length q" by blast
    from Suc.prems(2) have u: "\<forall>p. Suc k + n \<le> length p \<longrightarrow> readdir fs p = None" by simp
    from Suc.IH [OF l u] getDirSizeBytes_loop_round [OF False, of fs follow tot]
    show ?thesis by (simp add: du_round del: du.simps)
  qed
qed


subsection \<open>The accumulator and the files it counts\<close>

text \<open>
  On a file system where nothing can be listed \<open>n\<close> or more levels below the measured
  directory, \<^verbatim>\<open>getDirSizeBytes\<close> returns, without failing, the bytes of the walk by
  path: the sizes of the counted entries, each as often as the walk meets it.
\<close>

lemma getDirSizeBytes_du:
  "(\<forall>p. length dirPath + n \<le> length p \<longrightarrow> readdir fs p = None) \<Longrightarrow>
     getDirSizeBytes fs dirPath follow = Some (Inr (du n fs follow dirPath))"
  using getDirSizeBytes_loop_du [of "[dirPath]" "length dirPath" n fs follow 0]
  by (simp add: getDirSizeBytes_def)

lemma sum_list_snd_concat:
  "sum_list (map snd (concat (map f xs))) = (\<Sum>x\<leftarrow>xs. sum_list (map snd (f x)))"
  by (induction xs) simp_all

lemma du_reachableFiles_followed:
  "du n fs True d = sum_list (map snd (reachableFiles n fs True d))"
proof (induction n arbitrary: d)
  case 0
  show ?case by simp
next
  case (Suc n)
  show ?case
    by (auto simp: sum_list_snd_concat Suc.IH split: option.splits dtype.splits
          intro!: arg_cong [where f = sum_list] map_cong)
qed

lemma du_reachableFiles_ignored:
  "du n fs False d = sum_list (map snd (reachableFiles n fs False d))"
proof (induction n arbitrary: d)
  case 0
  show ?case by simp
next
  case (Suc n)
  show ?case
    by (auto simp: sum_list_snd_concat Suc.IH split: option.splits dtype.splits
          intro!: arg_cong [where f = sum_list] map_cong)
qed

lemma du_reachableFiles:
  "du n fs follow d = sum_list (map snd (reachableFiles n fs follow d))"
  by (cases follow) (simp_all add: du_reachableFiles_followed du_reachableFiles_ignored)

lemma getDirSizeBytes_reachableFiles:
  "(\<forall>p. length dirPath + n \<le> length p \<longrightarrow> readdir fs p = None) \<Longrightarrow>
     getDirSizeBytes fs dirPath follow
       = Some (Inr (sum_list (map snd (reachableFiles n fs follow dirPath))))"
  using getDirSizeBytes_du [of dirPath n fs follow] by (simp add: du_reachableFiles)

text \<open>Files of 100, 200 and 300 bytes and an empty subdirectory give 600; the mixed
  directory gives 31 bytes without symlinks and 6031 with them: nothing is skipped for
  its name, and what cannot be listed or stated counts 0. On these directories the
  result is the total with every directory entry counted once.\<close>

lemma getDirSizeBytes_examples:
  "getDirSizeBytes sized_fs [''nm''] False = Some (Inr 600) \<and>
   getDirSizeBytes sized_fs [''nm''] True = Some (Inr 600) \<and>
   getDirSizeBytes mixed_fs [''nm''] False = Some (Inr 31) \<and>
   getDirSizeBytes mixed_fs [''nm''] True = Some (Inr 6031)"
proof -
  have h: "\<forall>p. length [''nm''] + 2 \<le> length p \<longrightarrow> readdir sized_fs p = None"
    by (auto simp: sized_fs_def)
  have h': "\<forall>p. length [''nm''] + 2 \<le> length p \<longrightarrow> readdir mixed_fs p = None"
    by (auto simp: mixed_fs_def)
  have d: "du 2 sized_fs False [''nm''] = 600" "du 2 sized_fs True [''nm''] = 600"
    by (simp_all add: numeral_2_eq_2 sized_fs_def entry_def plainFile_def no_stat_def)
  have d': "du 2 mixed_fs False [''nm''] = 31" "du 2 mixed_fs True [''nm''] = 6031"
    by (simp_all add: numeral_2_eq_2 mixed_fs_def entry_def plainFile_def directoryStats_def)
  from getDirSizeBytes_du [OF h, of False] getDirSizeBytes_du [OF h, of True]
    getDirSizeBytes_du [OF h', of False] getDirSizeBytes_du [OF h', of True]
    d d'
  show ?thesis by simp
qed

lemma regularFileBytes_examples:
  "regularFileBytes 2 sized_fs False [''nm''] = 600 \<and>
   regularFileBytes 2 sized_fs True [''nm''] = 600 \<and>
   regularFileBytes 2 mixed_fs False [''nm''] = 31 \<and>
   regularFileBytes 2 mixed_fs True [''nm''] = 6031"
  by (simp add: regularFileBytes_def directoryId_def numeral_2_eq_2 sized_fs_def mixed_fs_def
        entry_def plainFile_def directoryStats_def no_stat_def)

text \<open>The directory with a symlink to a subdirectory.\<close>

lemma alias_fs_followed:
  "getDirSizeBytes alias_fs [''nm''] True = Some (Inr 200)"
proof -
  have h: "\<forall>p. length [''nm''] + 2 \<le> length p \<longrightarrow> readdir alias_fs p = None"
    by (auto simp: alias_fs_def)
  have "du 2 alias_fs True [''nm''] = 200"
    by (simp add: numeral_2_eq_2 alias_fs_def entry_def plainFile_def directoryStats_def)
  with getDirSizeBytes_du [OF h, of True] show ?thesis by simp
qed

lemma alias_fs_ignored:
  "getDirSizeBytes alias_fs [''nm''] False = Some (Inr 100)"
proof -
  have h: "\<forall>p. length [''nm''] + 2 \<le> length p \<longrightarrow> readdir alias_fs p = None"
    by (auto simp: alias_fs_def)
  have "du 2 alias_fs False [''nm''] = 100"
    by (simp add: numeral_2_eq_2 alias_fs_def entry_def plainFile_def directoryStats_def)
  with getDirSizeBytes_du [OF h, of False] show ?thesis by simp
qed

lemma alias_fs_once:
  "regularFileBytes 2 alias_fs True [''nm''] = 100"
  "regularFileBytes 2 alias_fs False [''nm''] = 100"
  by (simp_all add: regularFileBytes_def directoryId_def numeral_2_eq_2 alias_fs_def entry_def
        plainFile_def directoryStats_def)

text \<open>The directory with a symlink to itself, for every limit \<open>k\<close> of the platform.\<close>

lemma selfLinks_long: "k + 2 \<le> length p \<Longrightarrow> selfLinks p = Some j \<Longrightarrow> \<not> j \<le> k"
  by (auto simp: selfLinks_def split: list.splits if_splits)

lemma loop_fs_bounded:
  "length [''nm''] + (k + 1) \<le> length p \<Longrightarrow> readdir (loop_fs k) p = None"
  using selfLinks_long [of k p] by (auto simp: loop_fs_def split: option.splits)

lemma selfLinks_replicate [simp]: "selfLinks (''nm'' # replicate j ''self'') = Some j"
  by (simp add: selfLinks_def list_all_iff)

lemma selfLinks_self [simp]:
  "selfLinks (''nm'' # replicate j ''self'' @ [''self'']) = Some (Suc j)"
  using selfLinks_replicate [of "Suc j"] by (simp only: replicate_Suc replicate_append_same)

lemma du_loop_fs:
  "j + n = k \<Longrightarrow> du (Suc n) (loop_fs k) True (''nm'' # replicate j ''self'') = 10 * (n + 1)"
proof (induction n arbitrary: j)
  case 0
  then show ?case
    by (simp add: loop_fs_def entry_def plainFile_def directoryStats_def)
next
  case (Suc n)
  from Suc.prems have j: "Suc j + n = k" by simp
  have p: "''nm'' # replicate j ''self'' @ [''self''] = ''nm'' # replicate (Suc j) ''self''"
    by (simp only: replicate_Suc replicate_append_same)
  from Suc.IH [OF j]
  have "du (Suc n) (loop_fs k) True (''nm'' # replicate j ''self'' @ [''self'']) = 10 * (n + 1)"
    by (simp only: p)
  with Suc.prems show ?case
    by (subst du.simps)
       (simp add: loop_fs_def entry_def plainFile_def directoryStats_def del: du.simps)
qed

lemma reachableFiles_loop_fs:
  "j + n = k \<Longrightarrow>
     reachableFiles (Suc n) (loop_fs k) True (''nm'' # replicate j ''self'')
       = replicate (Suc n) (([''nm''], ''f''), 10)"
proof (induction n arbitrary: j)
  case 0
  then show ?case
    by (simp add: loop_fs_def directoryId_def entry_def plainFile_def directoryStats_def)
next
  case (Suc n)
  from Suc.prems have j: "Suc j + n = k" by simp
  have p: "''nm'' # replicate j ''self'' @ [''self''] = ''nm'' # replicate (Suc j) ''self''"
    by (simp only: replicate_Suc replicate_append_same)
  from Suc.IH [OF j]
  have "reachableFiles (Suc n) (loop_fs k) True (''nm'' # replicate j ''self'' @ [''self''])
      = replicate (Suc n) (([''nm''], ''f''), 10)"
    by (simp only: p)
  with Suc.prems show ?case
    by (subst reachableFiles.simps)
       (simp add: loop_fs_def directoryId_def entry_def plainFile_def directoryStats_def
          del: reachableFiles.simps)
qed

lemma loop_fs_followed:
  "getDirSizeBytes (loop_fs k) [''nm''] True = Some (Inr (10 * (k + 1)))"
proof -
  have h: "\<forall>p. length [''nm''] + (k + 1) \<le> length p \<longrightarrow> readdir (loop_fs k) p = None"
    using loop_fs_bounded [of k] by blast
  from du_loop_fs [of 0 k k] have "du (k + 1) (loop_fs k) True [''nm''] = 10 * (k + 1)" by simp
  with getDirSizeBytes_du [OF h, of True] show ?thesis by simp
qed

lemma firstOfEach_replicate: "firstOfEach (replicate (Suc n) x) = [x]"
  by simp

lemma loop_fs_once:
  "regularFileBytes (k + 1) (loop_fs k) True [''nm''] = 10"
proof -
  from reachableFiles_loop_fs [of 0 k k]
  have "reachableFiles (Suc k) (loop_fs k) True [''nm''] = replicate (Suc k) (([''nm''], ''f''), 10)"
    by simp
  then have "regularFileBytes (Suc k) (loop_fs k) True [''nm'']
      = sum_list (map snd (firstOfEach (replicate (Suc k) (([''nm''], ''f''), 10 :: nat))))"
    unfolding regularFileBytes_def by (simp only:)
  also have "\<dots> = 10" by (simp only: firstOfEach_replicate) simp
  finally show ?thesis by simp
qed

subsection \<open>Claims about the size accumulator\<close>

text \<open>
  Claim C7: \<^verbatim>\<open>getDirSizeBytes\<close> returns the sum of the sizes of the regular files
  reachable from the measured directory, each directory entry counted once, with symlinks
  included only when they are followed. With symlinks followed the program does not
  return this sum: it keeps no record of the directories it has listed (the locator
  keeps one, \<^verbatim>\<open>seenRealPaths\<close>), so the files of a directory are counted once for every
  path that leads to it. For a directory holding \<^verbatim>\<open>real\<close> with one file of 100 bytes
  and a symlink \<^verbatim>\<open>alias\<close> to \<^verbatim>\<open>real\<close>, the sum of the claim is 100 and the program
  returns 200. For a directory holding one file of 10 bytes and a symlink to the directory
  itself, the sum of the claim is 10 and the program returns \<open>10 * (k + 1)\<close>, where \<open>k\<close>
  is the number of symlinks the platform resolves along one path.
\<close>

theorem getDirSizeBytes_recounts_followed_directories:
  "getDirSizeBytes alias_fs [''nm''] True = Some (Inr 200) \<and>
   regularFileBytes 2 alias_fs True [''nm''] = 100 \<and>
   getDirSizeBytes (loop_fs k) [''nm''] True = Some (Inr (10 * (k + 1))) \<and>
   regularFileBytes (k + 1) (loop_fs k) True [''nm''] = 10"
  using alias_fs_followed alias_fs_once(1) loop_fs_followed [of k] loop_fs_once [of k]
  by simp

text \<open>On Linux, which resolves 40 symlinks along a path, the 10 bytes are reported as
  410.\<close>

theorem getDirSizeBytes_recounts_followed_directories_witness:
  "getDirSizeBytes (loop_fs 40) [''nm''] True = Some (Inr 410) \<and>
   regularFileBytes 41 (loop_fs 40) True [''nm''] = 10"
  using getDirSizeBytes_recounts_followed_directories [of 40] by simp




section \<open>Properties of the locator\<close>

lemma scanEntries_eq:
  "scanEntries follow d k entries (nms, subs, checks) =
     (nms @ entryMatches d entries, subs @ entrySubdirs d k entries,
      checks @ entryLinks follow d k entries)"
proof -
  have T: "scanEntries True d k entries (a, b, c) =
     (a @ entryMatches d entries, b @ entrySubdirs d k entries, c @ entryLinks True d k entries)"
    for a b c
  proof (induction entries arbitrary: a b c)
    case Nil
    then show ?case by (simp add: entryMatches_def entrySubdirs_def entryLinks_def)
  next
    case (Cons ent entries)
    have m: "entryMatches d (ent # entries) = entryMatches d [ent] @ entryMatches d entries"
      and s: "entrySubdirs d k (ent # entries) = entrySubdirs d k [ent] @ entrySubdirs d k entries"
      and l: "entryLinks True d k (ent # entries) = entryLinks True d k [ent] @ entryLinks True d k entries"
      by (simp_all add: entryMatches_def entrySubdirs_def entryLinks_def)
    show ?case
      unfolding m s l
      by (cases "dtype ent")
        (simp_all add: Cons.IH Let_def isDirectory_def isSymbolicLink_def reserved_def
          entryMatches_def entrySubdirs_def entryLinks_def)
  qed
  have F: "scanEntries False d k entries (a, b, c) =
     (a @ entryMatches d entries, b @ entrySubdirs d k entries, c @ entryLinks False d k entries)"
    for a b c
  proof (induction entries arbitrary: a b c)
    case Nil
    then show ?case by (simp add: entryMatches_def entrySubdirs_def entryLinks_def)
  next
    case (Cons ent entries)
    have m: "entryMatches d (ent # entries) = entryMatches d [ent] @ entryMatches d entries"
      and s: "entrySubdirs d k (ent # entries) = entrySubdirs d k [ent] @ entrySubdirs d k entries"
      and l: "entryLinks False d k (ent # entries) = entryLinks False d k [ent] @ entryLinks False d k entries"
      by (simp_all add: entryMatches_def entrySubdirs_def entryLinks_def)
    show ?case
      unfolding m s l
      by (cases "dtype ent")
        (simp_all add: Cons.IH Let_def isDirectory_def isSymbolicLink_def reserved_def
          entryMatches_def entrySubdirs_def entryLinks_def)
  qed
  show ?thesis by (cases follow) (simp_all add: T F)
qed

lemma listDir_eq:
  "listDir fs opts nd =
     (case readdir fs (dir nd) of
        None \<Rightarrow> nothing
      | Some entries \<Rightarrow>
          \<lparr> nodeModules = entryMatches (dir nd) entries,
            subdirs = entrySubdirs (dir nd) (depth nd) entries @
              [r. Some r \<leftarrow> map (checkSymlink fs)
                 (entryLinks (followSymlinks opts) (dir nd) (depth nd) entries)] \<rparr>)"
  by (simp add: listDir_def scanEntries_eq split: option.splits)

lemma listDir_nodeModules:
  "m \<in> set (nodeModules (listDir fs opts nd)) \<Longrightarrow> m = dir nd @ [''node_modules'']"
  by (auto simp: listDir_eq nothing_def entryMatches_def split: option.splits if_splits)

lemma listDir_subdirs:
  assumes "s \<in> set (subdirs (listDir fs opts nd))"
  shows "\<exists>nm. dir s = dir nd @ [nm] \<and> \<not> reserved nm \<and> depth s = depth nd + 1"
proof (cases "readdir fs (dir nd)")
  case None
  with assms show ?thesis by (simp add: listDir_eq nothing_def)
next
  case (Some entries)
  have c: "Some r = checkSymlink fs x \<Longrightarrow> r = x" for x r
    by (auto simp: checkSymlink_def split: option.splits if_splits)
  from assms Some
  consider "s \<in> set (entrySubdirs (dir nd) (depth nd) entries)"
    | "s \<in> set (entryLinks (followSymlinks opts) (dir nd) (depth nd) entries)"
    by (auto simp: listDir_eq split: option.splits dest: c)
  then show ?thesis
    by cases (auto simp: entrySubdirs_def entryLinks_def)
qed

lemma nothing_simps [simp]: "nodeModules nothing = []" "subdirs nothing = []"
  by (simp_all add: nothing_def)

text \<open>The outcome of a unit of work, whatever the shared state.\<close>

lemma scanTask_outcome:
  "fst (scanTask fs opts nd seen) = Inr nothing \<or>
   (fst (scanTask fs opts nd seen) = Inr (listDir fs opts nd) \<and> \<not> exceedsMaxDepth opts (depth nd))"
  by (auto simp: scanTask_def split: option.splits)

lemma gather_values:
  "gather (map Value founds) (res, nextLevel) =
     Inr (res @ concat (map nodeModules founds), nextLevel @ concat (map subdirs founds))"
  by (induction founds arbitrary: res nextLevel) simp_all

lemma scanBatch_values:
  assumes "runParallel lat (map (scanTask fs opts) level) DIR_CONCURRENCY seen = (batch, seen')"
  shows "\<exists>founds. batch = map Value founds \<and> length founds = length level \<and>
           (\<forall>i<length level. founds ! i = nothing \<or>
              (founds ! i = listDir fs opts (level ! i) \<and> \<not> exceedsMaxDepth opts (depth (level ! i))))"
proof -
  have c: "1 \<le> DIR_CONCURRENCY" by (simp add: DIR_CONCURRENCY_def)
  from runParallel_slots(1) [OF c assms] have len: "length batch = length level" by simp
  have slot: "batch ! i = Value nothing \<or>
      (batch ! i = Value (listDir fs opts (level ! i)) \<and> \<not> exceedsMaxDepth opts (depth (level ! i)))"
    if "i < length level" for i
  proof -
    from runParallel_slots(2) [OF c assms, of i] that
    obtain s where "batch ! i = capture (fst (scanTask fs opts (level ! i) s))" by auto
    with scanTask_outcome [of fs opts "level ! i" s] show ?thesis by auto
  qed
  let ?founds = "map unValue batch"
  have "batch = map Value ?founds"
  proof (rule nth_equalityI)
    show "length batch = length (map Value ?founds)" by simp
    fix i assume "i < length batch"
    with slot [of i] len show "batch ! i = map Value ?founds ! i"
      by (auto simp: unValue_def)
  qed
  moreover have "length ?founds = length level" by (simp add: len)
  moreover have "\<forall>i<length level. ?founds ! i = nothing \<or>
      (?founds ! i = listDir fs opts (level ! i) \<and> \<not> exceedsMaxDepth opts (depth (level ! i)))"
  proof (intro allI impI)
    fix i assume i: "i < length level"
    with len have "?founds ! i = unValue (batch ! i)" by simp
    with slot [OF i] show "?founds ! i = nothing \<or>
      (?founds ! i = listDir fs opts (level ! i) \<and> \<not> exceedsMaxDepth opts (depth (level ! i)))"
      by (auto simp: unValue_def)
  qed
  ultimately show ?thesis by blast
qed

text \<open>One round of the level loop, and the loop at an empty level.\<close>

lemma findNodeModules_loop_Nil:
  "findNodeModules_loop fs opts sched res seen n [] = Some (Inr res)"
  by (subst findNodeModules_loop.simps) simp

lemma findNodeModules_loop_round:
  assumes "level \<noteq> []"
    and "runParallel (sched level) (map (scanTask fs opts) level) DIR_CONCURRENCY seen
           = (map Value founds, seen')"
  shows "findNodeModules_loop fs opts sched res seen n level =
         findNodeModules_loop fs opts sched (res @ concat (map nodeModules founds)) seen'
           (n + length level) (concat (map subdirs founds))"
  using assms by (subst findNodeModules_loop.simps) (simp add: gather_values)

text \<open>An invariant of the rounds holds of what the loop returns, and the loop never
  raises.\<close>

lemma findNodeModules_loop_invariant:
  assumes ret: "findNodeModules_loop fs opts sched res seen n level = Some out"
    and inv: "I res seen level"
    and step: "\<And>res seen level founds seen'.
        I res seen level \<Longrightarrow> level \<noteq> [] \<Longrightarrow>
        runParallel (sched level) (map (scanTask fs opts) level) DIR_CONCURRENCY seen
          = (map Value founds, seen') \<Longrightarrow>
        I (res @ concat (map nodeModules founds)) seen' (concat (map subdirs founds))"
  shows "\<exists>final seenF. out = Inr final \<and> I final seenF []"
proof -
  have "\<forall>I. I res seen level \<longrightarrow>
        (\<forall>res seen level founds seen'.
        I res seen level \<longrightarrow> level \<noteq> [] \<longrightarrow>
        runParallel (sched level) (map (scanTask fs opts) level) DIR_CONCURRENCY seen
          = (map Value founds, seen') \<longrightarrow>
        I (res @ concat (map nodeModules founds)) seen' (concat (map subdirs founds))) \<longrightarrow>
        (\<exists>final seenF. out = Inr final \<and> I final seenF [])"
  proof (rule findNodeModules_loop.raw_induct [where P = "\<lambda>fs opts sched res seen n level out.
        \<forall>I. I res seen level \<longrightarrow>
        (\<forall>res seen level founds seen'.
        I res seen level \<longrightarrow> level \<noteq> [] \<longrightarrow>
        runParallel (sched level) (map (scanTask fs opts) level) DIR_CONCURRENCY seen
          = (map Value founds, seen') \<longrightarrow>
        I (res @ concat (map nodeModules founds)) seen' (concat (map subdirs founds))) \<longrightarrow>
        (\<exists>final seenF. out = Inr final \<and> I final seenF [])", OF _ ret])
    fix loop :: "filesystem \<Rightarrow> options \<Rightarrow> (node list \<Rightarrow> nat \<Rightarrow> nat) \<Rightarrow>
        path list \<Rightarrow> path set option \<Rightarrow> nat \<Rightarrow> node list \<Rightarrow> (exn + path list) option"
      and fs opts sched res seen n level out
    assume IH: "\<And>fs opts sched res seen n level y.
        loop fs opts sched res seen n level = Some y \<Longrightarrow>
        \<forall>I. I res seen level \<longrightarrow>
        (\<forall>res seen level founds seen'.
        I res seen level \<longrightarrow> level \<noteq> [] \<longrightarrow>
        runParallel (sched level) (map (scanTask fs opts) level) DIR_CONCURRENCY seen
          = (map Value founds, seen') \<longrightarrow>
        I (res @ concat (map nodeModules founds)) seen' (concat (map subdirs founds))) \<longrightarrow>
        (\<exists>final seenF. y = Inr final \<and> I final seenF [])"
      and body: "(if level = [] then Some (Inr res)
        else case runParallel (sched level) (map (scanTask fs opts) level) DIR_CONCURRENCY seen of
           (batchResults, seenRealPaths') \<Rightarrow>
             case gather batchResults (res, []) of Inl e \<Rightarrow> Some (Inl e)
             | Inr (res', nextLevel) \<Rightarrow>
                 loop fs opts sched res' seenRealPaths' (n + length level) nextLevel) = Some out"
    show "\<forall>I. I res seen level \<longrightarrow>
        (\<forall>res seen level founds seen'.
        I res seen level \<longrightarrow> level \<noteq> [] \<longrightarrow>
        runParallel (sched level) (map (scanTask fs opts) level) DIR_CONCURRENCY seen
          = (map Value founds, seen') \<longrightarrow>
        I (res @ concat (map nodeModules founds)) seen' (concat (map subdirs founds))) \<longrightarrow>
        (\<exists>final seenF. out = Inr final \<and> I final seenF [])"
    proof (intro allI impI)
      fix I
      assume inv: "I res seen level"
        and step: "\<forall>res seen level founds seen'.
          I res seen level \<longrightarrow> level \<noteq> [] \<longrightarrow>
          runParallel (sched level) (map (scanTask fs opts) level) DIR_CONCURRENCY seen
            = (map Value founds, seen') \<longrightarrow>
          I (res @ concat (map nodeModules founds)) seen' (concat (map subdirs founds))"
      show "\<exists>final seenF. out = Inr final \<and> I final seenF []"
      proof (cases "level = []")
        case True
        with body inv show ?thesis by auto
      next
        case False
        obtain batch seen' where b: "runParallel (sched level) (map (scanTask fs opts) level)
            DIR_CONCURRENCY seen = (batch, seen')"
          by (cases "runParallel (sched level) (map (scanTask fs opts) level) DIR_CONCURRENCY seen")
        from scanBatch_values [OF b] obtain founds where f: "batch = map Value founds" by blast
        from body False b f
        have r: "loop fs opts sched (res @ concat (map nodeModules founds)) seen'
            (n + length level) (concat (map subdirs founds)) = Some out"
          by (simp add: gather_values)
        from step inv False b f
        have "I (res @ concat (map nodeModules founds)) seen' (concat (map subdirs founds))"
          by blast
        with IH [OF r] step show ?thesis by blast
      qed
    qed
  qed
  with inv step show ?thesis by blast
qed

lemma scanLevel_sound:
  assumes fr: "\<forall>nd\<in>set level. frontierOK root nd"
    and run: "runParallel lat (map (scanTask fs opts) level) DIR_CONCURRENCY seen = (map Value founds, seen')"
  shows "\<forall>m\<in>set (concat (map nodeModules founds)). matchOK root opts m"
    and "\<forall>s\<in>set (concat (map subdirs founds)). frontierOK root s"
proof -
  have "inj (Value :: found \<Rightarrow> (exn, found) slot)" by (simp add: inj_on_def)
  with scanBatch_values [OF run] have len: "length founds = length level"
    and each: "\<And>i. i < length level \<Longrightarrow> founds ! i = nothing \<or>
      (founds ! i = listDir fs opts (level ! i) \<and> \<not> exceedsMaxDepth opts (depth (level ! i)))"
    by (auto simp: inj_map_eq_map)
  show "\<forall>m\<in>set (concat (map nodeModules founds)). matchOK root opts m"
  proof
    fix m assume "m \<in> set (concat (map nodeModules founds))"
    then obtain f where "f \<in> set founds" and mf: "m \<in> set (nodeModules f)" by auto
    then obtain i where i: "i < length founds" and "founds ! i = f"
      by (auto simp: in_set_conv_nth)
    with mf have m: "m \<in> set (nodeModules (founds ! i))" by simp
    with each [of i] len i
    have l: "founds ! i = listDir fs opts (level ! i)"
      and d: "\<not> exceedsMaxDepth opts (depth (level ! i))" by auto
    from i len have "level ! i \<in> set level" by simp
    with fr have "frontierOK root (level ! i)" by blast
    then obtain suffix where s: "dir (level ! i) = root @ suffix"
      "depth (level ! i) = length suffix" "\<forall>nm\<in>set suffix. \<not> reserved nm"
      unfolding frontierOK_def by blast
    from m l listDir_nodeModules have "m = dir (level ! i) @ [''node_modules'']" by simp
    with s d show "matchOK root opts m" by (auto simp: matchOK_def)
  qed
  show "\<forall>s\<in>set (concat (map subdirs founds)). frontierOK root s"
  proof
    fix s assume "s \<in> set (concat (map subdirs founds))"
    then obtain f where "f \<in> set founds" and mf: "s \<in> set (subdirs f)" by auto
    then obtain i where i: "i < length founds" and "founds ! i = f"
      by (auto simp: in_set_conv_nth)
    with mf have m: "s \<in> set (subdirs (founds ! i))" by simp
    with each [of i] len i
    have l: "founds ! i = listDir fs opts (level ! i)" by auto
    from i len have "level ! i \<in> set level" by simp
    with fr have "frontierOK root (level ! i)" by blast
    then obtain suffix where sf: "dir (level ! i) = root @ suffix"
      "depth (level ! i) = length suffix" "\<forall>nm\<in>set suffix. \<not> reserved nm"
      unfolding frontierOK_def by blast
    from m l listDir_subdirs [of s fs opts "level ! i"]
    obtain nm where "dir s = dir (level ! i) @ [nm]" "\<not> reserved nm" "depth s = depth (level ! i) + 1"
      by auto
    with sf have "dir s = root @ (suffix @ [nm]) \<and> depth s = length (suffix @ [nm]) \<and>
        (\<forall>x\<in>set (suffix @ [nm]). \<not> reserved x)" by auto
    then show "frontierOK root s" unfolding frontierOK_def by blast
  qed
qed

lemma findNodeModules_sound:
  assumes "findNodeModules fs sched root opts = Some out"
  shows "\<exists>res. out = Inr res \<and> (\<forall>m\<in>set res. matchOK root opts m)"
proof -
  let ?I = "\<lambda>res (seen :: path set option) level.
      (\<forall>m\<in>set res. matchOK root opts m) \<and> (\<forall>nd\<in>set level. frontierOK root nd)"
  from assms have ret: "findNodeModules_loop fs opts sched []
       (if followSymlinks opts then Some {} else None) 0 [\<lparr> dir = root, depth = 0 \<rparr>] = Some out"
    by (simp add: findNodeModules_def)
  have init: "?I [] (if followSymlinks opts then Some {} else None) [\<lparr> dir = root, depth = 0 \<rparr>]"
    by (simp add: frontierOK_def)
  have "\<exists>final seenF. out = Inr final \<and> ?I final seenF []"
  proof (rule findNodeModules_loop_invariant [where I = ?I, OF ret init])
    fix res seen level founds seen'
    assume "?I res seen level" "level \<noteq> []"
      and "runParallel (sched level) (map (scanTask fs opts) level) DIR_CONCURRENCY seen
        = (map Value founds, seen')"
    with scanLevel_sound [of level root "sched level" fs opts seen founds seen']
    show "?I (res @ concat (map nodeModules founds)) seen' (concat (map subdirs founds))"
      by auto
  qed
  then show ?thesis by blast
qed

text \<open>The root of a scan is never among the matches, whatever its name: a match is an
  entry of a listed directory.\<close>

lemma findNodeModules_root_not_reported:
  assumes "findNodeModules fs sched root opts = Some out"
  shows "\<exists>res. out = Inr res \<and> root \<notin> set res"
  using findNodeModules_sound [OF assms] by (auto simp: matchOK_def)

lemmas locator_eval =
  findNodeModules_def findNodeModules_loop.simps runParallel_def DIR_CONCURRENCY_def
  scanTask_def exceedsMaxDepth_def listDir_def entry_def isDirectory_def
  isSymbolicLink_def shouldSkipDirName_def nothing_def checkSymlink_def no_stat_def

subsection \<open>Claims about the locator\<close>

text \<open>
  Claim C2: when the root given to the locator is itself a directory named
  \<^verbatim>\<open>node_modules\<close>, the locator reports it as a match and does not descend into it.
  The program does neither. It tests the name of the entries of a listed directory and
  never the name of the root: the root is listed and walked like any other directory.
  With \<^verbatim>\<open>srv/node_modules\<close> as the root the result is the nested
  \<^verbatim>\<open>srv/node_modules/pkg/node_modules\<close>, found by walking inside a directory named
  \<^verbatim>\<open>node_modules\<close>, and the root is not reported. The same directory met as an entry,
  with \<^verbatim>\<open>srv\<close> as the root, is reported and not walked into. This holds under every
  schedule, with and without following symlinks.
\<close>

theorem findNodeModules_root_named_node_modules:
  "findNodeModules rooted_fs sched [''srv'', ''node_modules''] unlimited
     = Some (Inr [ [''srv'', ''node_modules'', ''pkg'', ''node_modules''] ]) \<and>
   findNodeModules rooted_fs sched [''srv'', ''node_modules''] following
     = Some (Inr [ [''srv'', ''node_modules'', ''pkg'', ''node_modules''] ]) \<and>
   findNodeModules rooted_fs sched [''srv''] unlimited
     = Some (Inr [ [''srv'', ''node_modules''] ]) \<and>
   findNodeModules rooted_fs sched [''srv''] following
     = Some (Inr [ [''srv'', ''node_modules''] ])"
  by (simp add: locator_eval rooted_fs_def unlimited_def following_def)

text \<open>
  Claim C3 says that a match at depth 2 below the root is not reported with maximum
  depth 1. The limit bounds the depth of the directories that are listed, and a match is
  an entry of a listed directory: \<^verbatim>\<open>proj/a\<close> has depth 1, is listed, and its entry
  \<^verbatim>\<open>proj/a/node_modules\<close> (depth 2) is reported.
\<close>

theorem findNodeModules_depth_limit_counterexample:
  "findNodeModules shallow_fs fifo [''proj''] (limited 1)
     = Some (Inr [ [''proj'', ''a'', ''node_modules''] ])"
  by (simp add: locator_eval shallow_fs_def limited_def)

text \<open>
  Claim C3, amended. With a finite maximum depth \<open>m\<close> every reported match is at most
  \<open>m + 1\<close> levels below the root. For the tree whose only match
  \<^verbatim>\<open>proj/a/b/node_modules\<close> sits at depth 3, maximum depth 1 reports no match and
  maximum depth 2 reports it; for the match at depth 2, maximum depth 0 reports nothing
  and maximum depth 1 reports it.
\<close>

theorem findNodeModules_depth_limit:
  "(findNodeModules fs sched root opts = Some out \<longrightarrow> maxDepth opts = Some m \<longrightarrow>
      (\<exists>res. out = Inr res \<and> (\<forall>p\<in>set res. int (length p) \<le> int (length root) + m + 1))) \<and>
   findNodeModules deep_fs sched [''proj''] (limited 1) = Some (Inr []) \<and>
   findNodeModules deep_fs sched [''proj''] (limited 2)
     = Some (Inr [ [''proj'', ''a'', ''b'', ''node_modules''] ]) \<and>
   findNodeModules shallow_fs sched [''proj''] (limited 0) = Some (Inr []) \<and>
   findNodeModules shallow_fs sched [''proj''] (limited 1)
     = Some (Inr [ [''proj'', ''a'', ''node_modules''] ])"
proof (intro conjI impI)
  assume ret: "findNodeModules fs sched root opts = Some out" and m: "maxDepth opts = Some m"
  from findNodeModules_sound [OF ret] obtain res where out: "out = Inr res"
    and ok: "\<forall>m\<in>set res. matchOK root opts m" by blast
  have "int (length p) \<le> int (length root) + m + 1" if "p \<in> set res" for p
  proof -
    from ok that obtain suffix where "p = root @ suffix @ [''node_modules'']"
      "\<not> exceedsMaxDepth opts (length suffix)" by (auto simp: matchOK_def)
    with m show ?thesis by (simp add: exceedsMaxDepth_def)
  qed
  with out show "\<exists>res. out = Inr res \<and> (\<forall>p\<in>set res. int (length p) \<le> int (length root) + m + 1)"
    by blast
qed (simp_all add: locator_eval deep_fs_def shallow_fs_def limited_def)

theorem findNodeModules_depth_limit_witness:
  "findNodeModules deep_fs fifo [''proj''] (limited 2)
     = Some (Inr [ [''proj'', ''a'', ''b'', ''node_modules''] ]) \<and>
   maxDepth (limited 2) = Some 2 \<and>
   int (length [''proj'', ''a'', ''b'', ''node_modules'']) \<le> int (length [''proj'']) + 2 + 1"
proof -
  have m: "maxDepth (limited 2) = Some 2" by (simp add: limited_def)
  from findNodeModules_depth_limit [of deep_fs fifo "[''proj'']" "limited 2" _ 2] m
  show ?thesis by simp
qed




subsection \<open>Symlink cycles\<close>

lemma scanTask_seen:
  "scanTask fs opts nd (Some S) = (Inr nothing, Some S) \<or>
   (\<exists>r. realpath fs (dir nd) = Some r \<and> r \<notin> S \<and>
        scanTask fs opts nd (Some S) = (Inr (listDir fs opts nd), Some (insert r S)))"
  by (auto simp: scanTask_def split: option.splits)

text \<open>The units of a level, settled in any order without repetition, against the
  visited set.\<close>

lemma settle_scanTasks:
  assumes "distinct order" and "set order \<subseteq> {0..<length level}" and "length res0 = length level"
    and "settleInOrder (map (scanTask fs opts) level) order (res0, Some S0) = (res, sh)"
  shows "\<exists>S. sh = Some S \<and> S0 \<subseteq> S \<and> S \<subseteq> S0 \<union> ran (realpath fs) \<and>
     (\<forall>i\<in>set order. res ! i = Value nothing \<or>
        (\<exists>r. realpath fs (dir (level ! i)) = Some r \<and> r \<in> S \<and> r \<notin> S0 \<and>
             res ! i = Value (listDir fs opts (level ! i)))) \<and>
     (\<forall>i\<in>set order. \<forall>j\<in>set order. i \<noteq> j \<longrightarrow> res ! i \<noteq> Value nothing \<longrightarrow>
        res ! j \<noteq> Value nothing \<longrightarrow>
        realpath fs (dir (level ! i)) \<noteq> realpath fs (dir (level ! j)))"
  using assms
proof (induction order arbitrary: res0 S0)
  case Nil
  then show ?case by auto
next
  case (Cons i order)
  let ?tasks = "map (scanTask fs opts) level"
  from Cons.prems have i: "i < length level" and ni: "i \<notin> set order"
    and d: "distinct order" and sub: "set order \<subseteq> {0..<length level}" by auto
  obtain outcome S1 where t: "scanTask fs opts (level ! i) (Some S0) = (outcome, Some S1)"
    and step: "(outcome = Inr nothing \<and> S1 = S0) \<or>
      (\<exists>r. realpath fs (dir (level ! i)) = Some r \<and> r \<notin> S0 \<and>
           outcome = Inr (listDir fs opts (level ! i)) \<and> S1 = insert r S0)"
    using scanTask_seen [of fs opts "level ! i" S0] by auto
  let ?res1 = "res0[i := capture outcome]"
  from Cons.prems(4) t i
  have run: "settleInOrder ?tasks order (?res1, Some S1) = (res, sh)" by simp
  from Cons.prems(3) have len1: "length ?res1 = length level" by simp
  from Cons.IH [OF d sub len1 run] obtain S where S: "sh = Some S" "S1 \<subseteq> S"
    "S \<subseteq> S1 \<union> ran (realpath fs)"
    and each: "\<forall>j\<in>set order. res ! j = Value nothing \<or>
        (\<exists>r. realpath fs (dir (level ! j)) = Some r \<and> r \<in> S \<and> r \<notin> S1 \<and>
             res ! j = Value (listDir fs opts (level ! j)))"
    and inj: "\<forall>j\<in>set order. \<forall>k\<in>set order. j \<noteq> k \<longrightarrow> res ! j \<noteq> Value nothing \<longrightarrow>
        res ! k \<noteq> Value nothing \<longrightarrow>
        realpath fs (dir (level ! j)) \<noteq> realpath fs (dir (level ! k))"
    by blast
  from step have S01: "S0 \<subseteq> S1" and S1r: "S1 \<subseteq> S0 \<union> ran (realpath fs)"
    by (auto simp: ran_def)
  from settleInOrder_slot [of i ?res1 order ?tasks "Some S1"] ni i len1 run
  have resi: "res ! i = capture outcome" by simp
  have head: "res ! i = Value nothing \<or>
        (\<exists>r. realpath fs (dir (level ! i)) = Some r \<and> r \<in> S \<and> r \<notin> S0 \<and> r \<in> S1 \<and>
             res ! i = Value (listDir fs opts (level ! i)))"
    using step resi S(2) by auto
  have e: "\<forall>j\<in>set (i # order). res ! j = Value nothing \<or>
        (\<exists>r. realpath fs (dir (level ! j)) = Some r \<and> r \<in> S \<and> r \<notin> S0 \<and>
             res ! j = Value (listDir fs opts (level ! j)))"
    using head each S01 by auto
  have cross: "realpath fs (dir (level ! i)) \<noteq> realpath fs (dir (level ! j))"
    if "j \<in> set order" "res ! i \<noteq> Value nothing" "res ! j \<noteq> Value nothing" for j
  proof -
    from head that(2) obtain r where r: "realpath fs (dir (level ! i)) = Some r" "r \<in> S1" by auto
    from each that(1,3) obtain r' where r': "realpath fs (dir (level ! j)) = Some r'" "r' \<notin> S1" by auto
    from r r' show ?thesis by auto
  qed
  have f: "\<forall>j\<in>set (i # order). \<forall>k\<in>set (i # order). j \<noteq> k \<longrightarrow> res ! j \<noteq> Value nothing \<longrightarrow>
        res ! k \<noteq> Value nothing \<longrightarrow>
        realpath fs (dir (level ! j)) \<noteq> realpath fs (dir (level ! k))"
  proof (intro ballI impI)
    fix j k assume jk: "j \<in> set (i # order)" "k \<in> set (i # order)" "j \<noteq> k"
      "res ! j \<noteq> Value nothing" "res ! k \<noteq> Value nothing"
    show "realpath fs (dir (level ! j)) \<noteq> realpath fs (dir (level ! k))"
    proof (cases "j = i")
      case True
      with jk have "k \<in> set order" by auto
      from cross [OF this] jk True show ?thesis by simp
    next
      case False
      with jk have j: "j \<in> set order" by simp
      show ?thesis
      proof (cases "k = i")
        case True
        from cross [OF j] jk True show ?thesis by auto
      next
        case False
        with jk have "k \<in> set order" by simp
        with inj j jk show ?thesis by blast
      qed
    qed
  qed
  from S S01 S1r have "sh = Some S \<and> S0 \<subseteq> S \<and> S \<subseteq> S0 \<union> ran (realpath fs)" by auto
  with e f show ?case by blast
qed

lemma runParallel_DIR:
  "tasks \<noteq> [] \<Longrightarrow> runParallel lat tasks DIR_CONCURRENCY sh =
     settleInOrder tasks (sort_key lat [0..<length tasks]) (replicate (length tasks) Hole, sh)"
  by (cases tasks) (simp_all add: runParallel_def DIR_CONCURRENCY_def min_def)

text \<open>A level of the locator when symlinks are followed.\<close>

lemma scanLevel_seen:
  assumes run: "runParallel lat (map (scanTask fs opts) level) DIR_CONCURRENCY (Some S0)
      = (map Value founds, sh)"
  shows "\<exists>S. sh = Some S \<and> S0 \<subseteq> S \<and> S \<subseteq> S0 \<union> ran (realpath fs) \<and>
     (\<forall>i<length level. founds ! i \<noteq> nothing \<longrightarrow>
        (\<exists>r. realpath fs (dir (level ! i)) = Some r \<and> r \<in> S \<and> r \<notin> S0 \<and>
             founds ! i = listDir fs opts (level ! i))) \<and>
     (\<forall>i<length level. \<forall>j<length level. i \<noteq> j \<longrightarrow> founds ! i \<noteq> nothing \<longrightarrow>
        founds ! j \<noteq> nothing \<longrightarrow>
        realpath fs (dir (level ! i)) \<noteq> realpath fs (dir (level ! j)))"
proof (cases "level = []")
  case True
  with run show ?thesis by (auto simp: runParallel_def)
next
  case False
  let ?order = "sort_key lat [0..<length level]"
  let ?batch = "map Value founds :: (exn, found) slot list"
  from False run have r: "settleInOrder (map (scanTask fs opts) level) ?order
      (replicate (length level) Hole, Some S0) = (map Value founds, sh)"
    by (simp add: runParallel_DIR)
  have c: "1 \<le> DIR_CONCURRENCY" by (simp add: DIR_CONCURRENCY_def)
  from runParallel_slots(1) [OF c run] have len: "length founds = length level" by simp
  have d: "distinct ?order" and s: "set ?order \<subseteq> {0..<length level}" by simp_all
  have l: "length (replicate (length level) (Hole :: (exn, found) slot)) = length level" by simp
  from settle_scanTasks [OF d s l r] obtain S where all: "sh = Some S \<and> S0 \<subseteq> S \<and>
     S \<subseteq> S0 \<union> ran (realpath fs) \<and>
     (\<forall>i\<in>set ?order. ?batch ! i = Value nothing \<or>
        (\<exists>r. realpath fs (dir (level ! i)) = Some r \<and> r \<in> S \<and> r \<notin> S0 \<and>
             ?batch ! i = Value (listDir fs opts (level ! i)))) \<and>
     (\<forall>i\<in>set ?order. \<forall>j\<in>set ?order. i \<noteq> j \<longrightarrow> ?batch ! i \<noteq> Value nothing \<longrightarrow>
        ?batch ! j \<noteq> Value nothing \<longrightarrow>
        realpath fs (dir (level ! i)) \<noteq> realpath fs (dir (level ! j)))"
    by blast
  from all have S: "sh = Some S" "S0 \<subseteq> S" "S \<subseteq> S0 \<union> ran (realpath fs)"
    by simp_all
  from all have each: "\<forall>i\<in>set ?order. ?batch ! i = Value nothing \<or>
        (\<exists>r. realpath fs (dir (level ! i)) = Some r \<and> r \<in> S \<and> r \<notin> S0 \<and>
             ?batch ! i = Value (listDir fs opts (level ! i)))"
    by (elim conjE)
  from all have inj: "\<forall>i\<in>set ?order. \<forall>j\<in>set ?order. i \<noteq> j \<longrightarrow> ?batch ! i \<noteq> Value nothing \<longrightarrow>
        ?batch ! j \<noteq> Value nothing \<longrightarrow>
        realpath fs (dir (level ! i)) \<noteq> realpath fs (dir (level ! j))"
    by (elim conjE)
  have mem: "i \<in> set ?order" and nth: "?batch ! i = Value (founds ! i)"
    if "i < length level" for i
    using that len by simp_all
  have a: "\<forall>i<length level. founds ! i \<noteq> nothing \<longrightarrow>
        (\<exists>r. realpath fs (dir (level ! i)) = Some r \<and> r \<in> S \<and> r \<notin> S0 \<and>
             founds ! i = listDir fs opts (level ! i))"
  proof (intro allI impI)
    fix i assume i: "i < length level" and ne: "founds ! i \<noteq> nothing"
    from each mem [OF i] have "?batch ! i = Value nothing \<or>
        (\<exists>r. realpath fs (dir (level ! i)) = Some r \<and> r \<in> S \<and> r \<notin> S0 \<and>
             ?batch ! i = Value (listDir fs opts (level ! i)))" by blast
    with ne show "\<exists>r. realpath fs (dir (level ! i)) = Some r \<and> r \<in> S \<and> r \<notin> S0 \<and>
             founds ! i = listDir fs opts (level ! i)"
      unfolding nth [OF i] by simp
  qed
  have b: "\<forall>i<length level. \<forall>j<length level. i \<noteq> j \<longrightarrow> founds ! i \<noteq> nothing \<longrightarrow>
        founds ! j \<noteq> nothing \<longrightarrow>
        realpath fs (dir (level ! i)) \<noteq> realpath fs (dir (level ! j))"
  proof (intro allI impI)
    fix i j assume i: "i < length level" and j: "j < length level" and ij: "i \<noteq> j"
      and ne: "founds ! i \<noteq> nothing" "founds ! j \<noteq> nothing"
    from ne have "?batch ! i \<noteq> Value nothing" "?batch ! j \<noteq> Value nothing"
      unfolding nth [OF i] nth [OF j] by simp_all
    with inj mem [OF i] mem [OF j] ij
    show "realpath fs (dir (level ! i)) \<noteq> realpath fs (dir (level ! j))" by blast
  qed
  from S a b show ?thesis by blast
qed

lemma findNodeModules_loop_terminates:
  assumes fin: "finite (ran (realpath fs))"
  shows "\<exists>out. findNodeModules_loop fs opts sched res (Some S) n level = Some (Inr out)"
proof (induction "card (ran (realpath fs) - S)" arbitrary: res S n level rule: less_induct)
  case less
  show ?case
  proof (cases "level = []")
    case True
    then show ?thesis by (simp add: findNodeModules_loop_Nil)
  next
    case False
    obtain batch sh where b: "runParallel (sched level) (map (scanTask fs opts) level)
        DIR_CONCURRENCY (Some S) = (batch, sh)"
      by (cases "runParallel (sched level) (map (scanTask fs opts) level) DIR_CONCURRENCY (Some S)")
    from scanBatch_values [OF b] obtain founds where f: "batch = map Value founds"
      and len: "length founds = length level" by blast
    from b f have run: "runParallel (sched level) (map (scanTask fs opts) level)
        DIR_CONCURRENCY (Some S) = (map Value founds, sh)" by simp
    from scanLevel_seen [OF run] obtain S' where S': "sh = Some S'" "S \<subseteq> S'"
      and each: "\<forall>i<length level. founds ! i \<noteq> nothing \<longrightarrow>
        (\<exists>r. realpath fs (dir (level ! i)) = Some r \<and> r \<in> S' \<and> r \<notin> S \<and>
             founds ! i = listDir fs opts (level ! i))"
      by blast
    let ?res' = "res @ concat (map nodeModules founds)"
    let ?next = "concat (map subdirs founds)"
    from findNodeModules_loop_round [where sched = sched and level = level, OF False run] S'
    have eq: "findNodeModules_loop fs opts sched res (Some S) n level =
        findNodeModules_loop fs opts sched ?res' (Some S') (n + length level) ?next"
      by simp
    show ?thesis
    proof (cases "?next = []")
      case True
      with eq show ?thesis by (simp add: findNodeModules_loop_Nil)
    next
      case ne: False
      then obtain f where "f \<in> set founds" "subdirs f \<noteq> []" by auto
      then obtain i where "i < length founds" "subdirs (founds ! i) \<noteq> []"
        by (auto simp: in_set_conv_nth)
      moreover from this have "founds ! i \<noteq> nothing" by auto
      ultimately have i: "i < length founds" "founds ! i \<noteq> nothing" by simp_all
      with each len obtain r where r: "realpath fs (dir (level ! i)) = Some r" "r \<in> S'" "r \<notin> S"
        by auto
      then have "r \<in> ran (realpath fs)" by (auto simp: ran_def)
      with r S' have "ran (realpath fs) - S' \<subset> ran (realpath fs) - S" by auto
      with fin have "card (ran (realpath fs) - S') < card (ran (realpath fs) - S)"
        by (simp add: psubset_card_mono)
      from less [OF this] eq show ?thesis by simp
    qed
  qed
qed

lemma filter_unique_name:
  "distinct (map name entries) \<Longrightarrow> length (filter (\<lambda>ent. P ent \<and> name ent = c) entries) \<le> 1"
proof (induction entries)
  case Nil
  then show ?case by simp
next
  case (Cons e entries)
  show ?case
  proof (cases "P e \<and> name e = c")
    case True
    from Cons.prems have "name e \<notin> set (map name entries)" by simp
    then have "\<forall>x\<in>set entries. name x \<noteq> name e" by (metis imageI set_map)
    with True have "filter (\<lambda>ent. P ent \<and> name ent = c) entries = []"
      by (auto simp: filter_empty_conv)
    with True show ?thesis by simp
  next
    case False
    with Cons show ?thesis by auto
  qed
qed

lemma entryMatches_filter:
  "entryMatches d entries =
     map (\<lambda>ent. d @ [name ent])
       (filter (\<lambda>ent. (dtype ent = DT_DIR \<or> dtype ent = DT_LNK) \<and> name ent = ''node_modules'') entries)"
  by (induction entries) (simp_all add: entryMatches_def)

lemma listDir_one_match:
  assumes "\<forall>p entries. readdir fs p = Some entries \<longrightarrow> distinct (map name entries)"
  shows "length (nodeModules (listDir fs opts nd)) \<le> 1"
proof (cases "readdir fs (dir nd)")
  case None
  then show ?thesis by (simp add: listDir_eq)
next
  case (Some entries)
  with assms have "distinct (map name entries)" by blast
  from filter_unique_name [OF this, of "\<lambda>ent. dtype ent = DT_DIR \<or> dtype ent = DT_LNK" "''node_modules''"]
  show ?thesis using Some by (simp add: listDir_eq entryMatches_filter)
qed

lemma distinct_map_concat:
  assumes "\<And>i. i < length xss \<Longrightarrow> length (xss ! i) \<le> 1"
    and "\<And>i j x y. i < length xss \<Longrightarrow> j < length xss \<Longrightarrow> i \<noteq> j \<Longrightarrow>
           x \<in> set (xss ! i) \<Longrightarrow> y \<in> set (xss ! j) \<Longrightarrow> g x \<noteq> g y"
  shows "distinct (map g (concat xss))"
  using assms
proof (induction xss)
  case Nil
  then show ?case by simp
next
  case (Cons xs xss)
  have d: "distinct (map g (concat xss))"
  proof (rule Cons.IH)
    fix i assume "i < length xss"
    with Cons.prems(1) [of "Suc i"] show "length (xss ! i) \<le> 1" by simp
  next
    fix i j x y
    assume "i < length xss" "j < length xss" "i \<noteq> j" "x \<in> set (xss ! i)" "y \<in> set (xss ! j)"
    with Cons.prems(2) [of "Suc i" "Suc j" x y] show "g x \<noteq> g y" by simp
  qed
  from Cons.prems(1) [of 0] have one: "length xs \<le> 1" by simp
  then have dx: "distinct (map g xs)" by (cases xs) auto
  have cross: "g x \<noteq> g y" if "x \<in> set xs" "y \<in> set (concat xss)" for x y
  proof -
    from that(2) obtain ys where "ys \<in> set xss" "y \<in> set ys" by auto
    then obtain j where "j < length xss" "xss ! j = ys" by (auto simp: in_set_conv_nth)
    with Cons.prems(2) [of 0 "Suc j" x y] that(1) \<open>y \<in> set ys\<close> show ?thesis by simp
  qed
  from d dx cross show ?case by auto
qed

lemma scanBatch_length:
  assumes "runParallel lat (map (scanTask fs opts) level) DIR_CONCURRENCY seen = (map Value founds, sh)"
  shows "length founds = length level"
proof -
  have "1 \<le> DIR_CONCURRENCY" by (simp add: DIR_CONCURRENCY_def)
  from runParallel_slots(1) [OF this assms] show ?thesis by simp
qed

lemma findNodeModules_loop_no_duplicates:
  assumes ret: "findNodeModules_loop fs opts sched res (Some S) n level = Some out"
    and names: "\<forall>p entries. readdir fs p = Some entries \<longrightarrow> distinct (map name entries)"
    and old: "\<forall>m\<in>set res. \<exists>r. realpath fs (butlast m) = Some r \<and> r \<in> S"
    and dist: "distinct (map (\<lambda>m. realpath fs (butlast m)) res)"
  shows "\<exists>final. out = Inr final \<and> distinct (map (\<lambda>m. realpath fs (butlast m)) final)"
proof -
  let ?g = "\<lambda>m. realpath fs (butlast m)"
  let ?I = "\<lambda>res seen (level :: node list). \<exists>S. seen = Some S \<and>
      (\<forall>m\<in>set res. \<exists>r. ?g m = Some r \<and> r \<in> S) \<and> distinct (map ?g res)"
  from old dist have init: "?I res (Some S) level" by simp
  have "\<exists>final seenF. out = Inr final \<and> ?I final seenF []"
  proof (rule findNodeModules_loop_invariant [where I = ?I, OF ret init])
    fix res seen level founds seen'
    assume inv: "?I res seen level" and "level \<noteq> []"
      and run: "runParallel (sched level) (map (scanTask fs opts) level) DIR_CONCURRENCY seen
        = (map Value founds, seen')"
    from inv obtain S where seen: "seen = Some S"
      and old: "\<forall>m\<in>set res. \<exists>r. ?g m = Some r \<and> r \<in> S" and dist: "distinct (map ?g res)"
      by blast
    from run seen have run': "runParallel (sched level) (map (scanTask fs opts) level)
        DIR_CONCURRENCY (Some S) = (map Value founds, seen')" by simp
    from scanBatch_length [OF run] have len: "length founds = length level" .
    from scanLevel_seen [OF run'] obtain S' where S': "seen' = Some S'" "S \<subseteq> S'"
      and each: "\<forall>i<length level. founds ! i \<noteq> nothing \<longrightarrow>
        (\<exists>r. realpath fs (dir (level ! i)) = Some r \<and> r \<in> S' \<and> r \<notin> S \<and>
             founds ! i = listDir fs opts (level ! i))"
      and inj: "\<forall>i<length level. \<forall>j<length level. i \<noteq> j \<longrightarrow> founds ! i \<noteq> nothing \<longrightarrow>
        founds ! j \<noteq> nothing \<longrightarrow>
        realpath fs (dir (level ! i)) \<noteq> realpath fs (dir (level ! j))"
      by blast
    text \<open>What a match of slot \<open>i\<close> looks like.\<close>
    have slot: "founds ! i \<noteq> nothing \<and> butlast x = dir (level ! i) \<and>
        (\<exists>r. ?g x = Some r \<and> r \<in> S' \<and> r \<notin> S) \<and> length (nodeModules (founds ! i)) \<le> 1"
      if "i < length founds" "x \<in> set (nodeModules (founds ! i))" for i x
    proof -
      from that(2) have ne: "founds ! i \<noteq> nothing" by auto
      with each that(1) len obtain r where r: "realpath fs (dir (level ! i)) = Some r"
        "r \<in> S'" "r \<notin> S" and l: "founds ! i = listDir fs opts (level ! i)" by auto
      from that(2) l listDir_nodeModules have "x = dir (level ! i) @ [''node_modules'']" by simp
      then have "butlast x = dir (level ! i)" by simp
      with ne r l listDir_one_match [OF names, of opts "level ! i"] show ?thesis by simp
    qed
    let ?new = "concat (map nodeModules founds)"
    have newm: "\<exists>r. ?g x = Some r \<and> r \<in> S' \<and> r \<notin> S" if "x \<in> set ?new" for x
    proof -
      from that obtain f where "f \<in> set founds" "x \<in> set (nodeModules f)" by auto
      then obtain i where "i < length founds" "x \<in> set (nodeModules (founds ! i))"
        by (auto simp: in_set_conv_nth)
      from slot [OF this] show ?thesis by blast
    qed
    have dnew: "distinct (map ?g ?new)"
    proof (rule distinct_map_concat)
      fix i assume "i < length (map nodeModules founds)"
      then have i: "i < length founds" by simp
      show "length (map nodeModules founds ! i) \<le> 1"
      proof (cases "nodeModules (founds ! i)")
        case Nil
        with i show ?thesis by simp
      next
        case (Cons x xs)
        then have "x \<in> set (nodeModules (founds ! i))" by simp
        from slot [OF i this] i show ?thesis by simp
      qed
    next
      fix i j x y
      assume "i < length (map nodeModules founds)" "j < length (map nodeModules founds)"
        and ij: "i \<noteq> j" and "x \<in> set (map nodeModules founds ! i)"
        "y \<in> set (map nodeModules founds ! j)"
      then have i: "i < length founds" and j: "j < length founds"
        and x: "x \<in> set (nodeModules (founds ! i))" and y: "y \<in> set (nodeModules (founds ! j))"
        by simp_all
      from slot [OF i x] slot [OF j y] inj i j ij len
      show "?g x \<noteq> ?g y" by auto
    qed
    have "distinct (map ?g (res @ ?new))"
    proof -
      have "?g x \<noteq> ?g y" if "x \<in> set res" "y \<in> set ?new" for x y
        using old that(1) newm [OF that(2)] by fastforce
      with dist dnew show ?thesis by auto
    qed
    moreover have "\<forall>m\<in>set (res @ ?new). \<exists>r. ?g m = Some r \<and> r \<in> S'"
      using old S'(2) newm by fastforce
    ultimately show "?I (res @ ?new) seen' (concat (map subdirs founds))"
      using S'(1) by blast
  qed
  then show ?thesis by blast
qed

lemma scanTask_already_seen:
  "realpath fs (dir nd) = Some real \<Longrightarrow> real \<in> seen \<Longrightarrow>
     scanTask fs opts nd (Some seen) = (Inr nothing, Some seen)"
  by (simp add: scanTask_def)

text \<open>
  Claim C6. With symlinks followed, on a file system with finitely many canonical paths
  the locator returns, whatever the schedule and however the symlinks are arranged: every
  round that puts something on the next level adds a new canonical path to the visited
  set. A node whose canonical path is already in the visited set contributes nothing and
  leaves the set as it is. When no listing repeats a name, no two reported matches lie in
  the same real directory, so no match is reported a second time through a cycle.
\<close>

theorem findNodeModules_symlink_cycles:
  "followSymlinks opts \<Longrightarrow> finite (ran (realpath fs)) \<Longrightarrow>
     (\<exists>res. findNodeModules fs sched root opts = Some (Inr res) \<and>
        ((\<forall>p entries. readdir fs p = Some entries \<longrightarrow> distinct (map name entries)) \<longrightarrow>
           distinct (map (\<lambda>m. realpath fs (butlast m)) res) \<and> distinct res)) \<and>
     (\<forall>nd seen real. realpath fs (dir nd) = Some real \<longrightarrow> real \<in> seen \<longrightarrow>
        scanTask fs opts nd (Some seen) = (Inr nothing, Some seen))"
proof -
  assume follow: "followSymlinks opts" and fin: "finite (ran (realpath fs))"
  from findNodeModules_loop_terminates [OF fin, of opts sched "[]" "{}" 0 "[\<lparr> dir = root, depth = 0 \<rparr>]"]
    follow
  obtain res where ret: "findNodeModules fs sched root opts = Some (Inr res)"
    by (auto simp: findNodeModules_def)
  have "distinct (map (\<lambda>m. realpath fs (butlast m)) res) \<and> distinct res"
    if names: "\<forall>p entries. readdir fs p = Some entries \<longrightarrow> distinct (map name entries)"
  proof -
    from ret follow have "findNodeModules_loop fs opts sched [] (Some {}) 0
        [\<lparr> dir = root, depth = 0 \<rparr>] = Some (Inr res)"
      by (simp add: findNodeModules_def)
    from findNodeModules_loop_no_duplicates [OF this names]
    have "distinct (map (\<lambda>m. realpath fs (butlast m)) res)" by simp
    then show ?thesis by (simp add: distinct_map)
  qed
  with ret scanTask_already_seen show ?thesis by blast
qed

lemma cyclic_ran: "ran (realpath cyclic_fs) \<subseteq>
    {[''proj''], [''proj'', ''a''], [''proj'', ''a'', ''node_modules'']}"
  by (auto simp: ran_def cyclic_fs_def split: if_splits)

theorem findNodeModules_symlink_cycles_witness:
  "followSymlinks following \<and> finite (ran (realpath cyclic_fs)) \<and>
   stat cyclic_fs [''proj'', ''a'', ''loop''] = Some directoryStats \<and>
   realpath cyclic_fs [''proj'', ''a'', ''loop''] = Some [''proj''] \<and>
   findNodeModules cyclic_fs fifo [''proj''] following = Some (Inr [ [''proj'', ''a'', ''node_modules''] ]) \<and>
   distinct (map (\<lambda>m. realpath cyclic_fs (butlast m)) [ [''proj'', ''a'', ''node_modules''] ]) \<and>
   scanTask cyclic_fs following \<lparr> dir = [''proj'', ''a'', ''loop''], depth = 2 \<rparr>
     (Some {[''proj''], [''proj'', ''a'']}) = (Inr nothing, Some {[''proj''], [''proj'', ''a'']})"
proof -
  have f: "followSymlinks following" by (simp add: following_def)
  have fin: "finite (ran (realpath cyclic_fs))"
    by (rule finite_subset [OF cyclic_ran]) simp
  have names: "\<forall>p entries. readdir cyclic_fs p = Some entries \<longrightarrow> distinct (map name entries)"
    by (auto simp: cyclic_fs_def entry_def split: if_splits)
  have st: "stat cyclic_fs [''proj'', ''a'', ''loop''] = Some directoryStats"
    and rp: "realpath cyclic_fs [''proj'', ''a'', ''loop''] = Some [''proj'']"
    by (simp_all add: cyclic_fs_def cyclic_real_def walk_def)
  have ev: "findNodeModules cyclic_fs fifo [''proj''] following
      = Some (Inr [ [''proj'', ''a'', ''node_modules''] ])"
    by (simp add: locator_eval cyclic_fs_def cyclic_real_def walk_def following_def fifo_def
        directoryStats_def)
  note inst = findNodeModules_symlink_cycles [OF f fin, of fifo "[''proj'']"]
  from inst rp
  have a: "scanTask cyclic_fs following \<lparr> dir = [''proj'', ''a'', ''loop''], depth = 2 \<rparr>
     (Some {[''proj''], [''proj'', ''a'']}) = (Inr nothing, Some {[''proj''], [''proj'', ''a'']})"
    by simp
  from inst names ev
  have b: "distinct (map (\<lambda>m. realpath cyclic_fs (butlast m)) [ [''proj'', ''a'', ''node_modules''] ])"
    by auto
  from f fin st rp ev a b show ?thesis by simp
qed


section \<open>Properties of the report and of the deletion phase\<close>

lemma sumRows_values:
  "Hole \<notin> set rows \<Longrightarrow> sumRows rows acc = Inr (acc + sum_list (map sizeOrZero rows))"
proof (induction rows arbitrary: acc)
  case Nil
  then show ?case by simp
next
  case (Cons r rows)
  then show ?case by (cases r) simp_all
qed

lemma set_insertBy: "set (insertBy cmp x ys) = insert x (set ys)"
  by (induction ys) auto

lemma mset_insertBy: "mset (insertBy cmp x ys) = add_mset x (mset ys)"
  by (induction ys) simp_all

lemma mset_sortBy: "mset (sortBy cmp xs) = mset xs"
  by (induction xs) (simp_all add: sortBy_def mset_insertBy)

lemma sorted_insertBy:
  assumes "\<And>a b. cmp a b \<le> 0 \<longleftrightarrow> key b \<le> (key a :: nat)"
    and "sorted_wrt (\<lambda>a b. key b \<le> key a) ys"
  shows "sorted_wrt (\<lambda>a b. key b \<le> key a) (insertBy cmp x ys)"
  using assms(2)
proof (induction ys)
  case Nil
  then show ?case by simp
next
  case (Cons y ys)
  show ?case
  proof (cases "cmp x y \<le> 0")
    case True
    with assms(1) have "key y \<le> key x" by simp
    with Cons.prems True show ?thesis by force
  next
    case False
    with assms(1) have "key x \<le> key y" by (metis nat_le_linear)
    with Cons False show ?thesis by (auto simp: set_insertBy)
  qed
qed

lemma sorted_sortBy:
  assumes "\<And>a b. cmp a b \<le> 0 \<longleftrightarrow> key b \<le> (key a :: nat)"
  shows "sorted_wrt (\<lambda>a b. key b \<le> key a) (sortBy cmp xs)"
proof (induction xs)
  case Nil
  then show ?case by (simp add: sortBy_def)
next
  case (Cons x xs)
  from sorted_insertBy [where cmp = cmp and key = key and ys = "sortBy cmp xs" and x = x, OF assms] Cons
  show ?case by (simp add: sortBy_def)
qed

lemma bySizeDesc_le: "bySizeDesc a b \<le> 0 \<longleftrightarrow> sizeOrZero b \<le> sizeOrZero a"
  by (simp add: bySizeDesc_def)

subsection \<open>Claims about the report and the deletion phase\<close>

text \<open>
  Claim C9. The report never raises; the rows handed to rendering are the rows of the
  size phase in descending order of size, where a row whose size unit failed counts as
  size 0, and \<^verbatim>\<open>totalBytes\<close> is the sum of the sizes of all rows, a failed row adding 0.
\<close>

theorem report_sorted_and_total:
  "\<exists>rows. report sizeOutcomes = Inr (sum_list (map sizeOrZero (map capture sizeOutcomes)), rows) \<and>
      sorted_wrt (\<lambda>a b. sizeOrZero b \<le> sizeOrZero a) rows \<and>
      mset rows = mset (map capture sizeOutcomes) \<and>
      sizeOrZero (Captured e) = 0 \<and> sizeOrZero (Value \<lparr> nmPath = p, bytes = n \<rparr>) = n"
proof -
  have rows: "runParallelPure sizeOutcomes DIR_CONCURRENCY = map capture sizeOutcomes"
    by (simp add: runParallelPure_eq DIR_CONCURRENCY_def)
  have "Hole \<notin> set (map capture sizeOutcomes)"
  proof
    assume "Hole \<in> set (map capture sizeOutcomes)"
    then obtain out where "(Hole :: (exn, row) slot) = capture out" by auto
    then show False by (cases out) simp_all
  qed
  from sumRows_values [OF this, of 0]
  have "report sizeOutcomes = Inr (sum_list (map sizeOrZero (map capture sizeOutcomes)),
      sortBy bySizeDesc (map capture sizeOutcomes))"
    by (simp add: report_def rows Let_def del: map_map)
  moreover from sorted_sortBy [of bySizeDesc sizeOrZero, OF bySizeDesc_le]
  have "sorted_wrt (\<lambda>a b. sizeOrZero b \<le> sizeOrZero a) (sortBy bySizeDesc (map capture sizeOutcomes))" .
  ultimately show ?thesis by (simp add: mset_sortBy sizeOrZero_def)
qed


theorem report_sorted_and_total_witness:
  "report [Inr \<lparr> nmPath = [''a'', ''node_modules''], bytes = 24 \<rparr>, Inl TypeError,
           Inr \<lparr> nmPath = [''b'', ''node_modules''], bytes = 612 \<rparr>,
           Inr \<lparr> nmPath = [''c'', ''node_modules''], bytes = 98 \<rparr>]
   = Inr (734, [Value \<lparr> nmPath = [''b'', ''node_modules''], bytes = 612 \<rparr>,
                Value \<lparr> nmPath = [''c'', ''node_modules''], bytes = 98 \<rparr>,
                Value \<lparr> nmPath = [''a'', ''node_modules''], bytes = 24 \<rparr>,
                Captured TypeError]) \<and>
   sorted_wrt (\<lambda>a b. sizeOrZero b \<le> sizeOrZero a)
     [Value \<lparr> nmPath = [''b'', ''node_modules''], bytes = 612 \<rparr>,
      Value \<lparr> nmPath = [''c'', ''node_modules''], bytes = 98 \<rparr>,
      Value \<lparr> nmPath = [''a'', ''node_modules''], bytes = 24 \<rparr>,
      Captured TypeError]"
proof -
  let ?outs = "[Inr \<lparr> nmPath = [''a'', ''node_modules''], bytes = 24 \<rparr>, Inl TypeError,
           Inr \<lparr> nmPath = [''b'', ''node_modules''], bytes = 612 \<rparr>,
           Inr \<lparr> nmPath = [''c'', ''node_modules''], bytes = 98 \<rparr>]"
  have ev: "report ?outs
   = Inr (734, [Value \<lparr> nmPath = [''b'', ''node_modules''], bytes = 612 \<rparr>,
                Value \<lparr> nmPath = [''c'', ''node_modules''], bytes = 98 \<rparr>,
                Value \<lparr> nmPath = [''a'', ''node_modules''], bytes = 24 \<rparr>,
                Captured TypeError])"
    by (simp add: report_def runParallelPure_eq DIR_CONCURRENCY_def sortBy_def bySizeDesc_def
      sizeOrZero_def)
  from report_sorted_and_total [of ?outs] ev show ?thesis by auto
qed

lemma deleteTask_cases:
  "(\<exists>d. deleteTask faults r st = (Inr \<lparr> success = True, path = nmPath r \<rparr>, st\<lparr> disk := d \<rparr>)) \<or>
   (\<exists>d m. deleteTask faults r st =
      (Inr \<lparr> success = False, path = nmPath r \<rparr>,
       st\<lparr> deleteErrors := deleteErrors st @ [(nmPath r, m)], disk := d \<rparr>))"
  by (cases "removeDir faults (nmPath r) (disk st)")
    (auto simp: deleteTask_def split: option.splits)

lemma settle_deleteTasks:
  assumes "distinct order" and "set order \<subseteq> {0..<length rows}" and "length res0 = length rows"
    and "settleInOrder (map (deleteTask faults) rows) order (res0, st0) = (res, st)"
  shows "(\<forall>i\<in>set order. \<exists>b. res ! i = Value \<lparr> success = b, path = nmPath (rows ! i) \<rparr>) \<and>
     (\<exists>new. deleteErrors st = deleteErrors st0 @ new \<and>
        map fst new = map (\<lambda>i. nmPath (rows ! i)) (filter (\<lambda>i. \<not> isSuccess (res ! i)) order))"
  using assms
proof (induction order arbitrary: res0 st0)
  case Nil
  then show ?case by simp
next
  case (Cons i order)
  let ?tasks = "map (deleteTask faults) rows"
  from Cons.prems have i: "i < length rows" and ni: "i \<notin> set order"
    and d: "distinct order" and sub: "set order \<subseteq> {0..<length rows}" by auto
  from deleteTask_cases [of faults "rows ! i" st0]
  obtain b new1 st1 where t: "deleteTask faults (rows ! i) st0 =
      (Inr \<lparr> success = b, path = nmPath (rows ! i) \<rparr>, st1)"
    and e1: "deleteErrors st1 = deleteErrors st0 @ new1"
    and n1: "map fst new1 = (if b then [] else [nmPath (rows ! i)])"
  proof (elim disjE exE)
    fix dk assume a: "deleteTask faults (rows ! i) st0 =
        (Inr \<lparr> success = True, path = nmPath (rows ! i) \<rparr>, st0\<lparr> disk := dk \<rparr>)"
    show thesis by (rule that [of True "st0\<lparr> disk := dk \<rparr>" "[]"]) (simp_all add: a)
  next
    fix dk m assume a: "deleteTask faults (rows ! i) st0 =
        (Inr \<lparr> success = False, path = nmPath (rows ! i) \<rparr>,
         st0\<lparr> deleteErrors := deleteErrors st0 @ [(nmPath (rows ! i), m)], disk := dk \<rparr>)"
    show thesis
      by (rule that [of False "st0\<lparr> deleteErrors := deleteErrors st0 @ [(nmPath (rows ! i), m)], disk := dk \<rparr>"
            "[(nmPath (rows ! i), m)]"]) (simp_all add: a)
  qed
  let ?res1 = "res0[i := Value \<lparr> success = b, path = nmPath (rows ! i) \<rparr>]"
  from Cons.prems(4) t i
  have run: "settleInOrder ?tasks order (?res1, st1) = (res, st)" by simp
  from Cons.prems(3) have len1: "length ?res1 = length rows" by simp
  from Cons.IH [OF d sub len1 run]
  obtain new where shape: "\<forall>j\<in>set order. \<exists>b. res ! j = Value \<lparr> success = b, path = nmPath (rows ! j) \<rparr>"
    and e: "deleteErrors st = deleteErrors st1 @ new"
    and n: "map fst new = map (\<lambda>j. nmPath (rows ! j)) (filter (\<lambda>j. \<not> isSuccess (res ! j)) order)"
    by blast
  from settleInOrder_slot [of i ?res1 order ?tasks st1] ni i len1 run
  have resi: "res ! i = Value \<lparr> success = b, path = nmPath (rows ! i) \<rparr>" by simp
  then have sb: "isSuccess (res ! i) = b" by (simp add: isSuccess_def)
  from resi shape have a: "\<forall>j\<in>set (i # order). \<exists>b. res ! j = Value \<lparr> success = b, path = nmPath (rows ! j) \<rparr>"
    by auto
  from e e1 have "deleteErrors st = deleteErrors st0 @ (new1 @ new)" by simp
  moreover from n n1 sb
  have "map fst (new1 @ new) =
      map (\<lambda>j. nmPath (rows ! j)) (filter (\<lambda>j. \<not> isSuccess (res ! j)) (i # order))"
    by simp
  ultimately show ?case using a by blast
qed

lemma tally_counts:
  "Hole \<notin> set slots \<Longrightarrow>
     tally slots (removed, failed) =
       Inr (removed + length (filter isSuccess slots),
            failed + length (filter (\<lambda>s. \<not> isSuccess s) slots))"
proof (induction slots arbitrary: removed failed)
  case Nil
  then show ?case by simp
next
  case (Cons s slots)
  then show ?case by (cases s) (simp_all add: isSuccess_def)
qed

lemma runParallel_DELETE:
  "tasks \<noteq> [] \<Longrightarrow> runParallel lat tasks DELETE_CONCURRENCY sh =
     settleInOrder tasks (sort_key lat [0..<length tasks]) (replicate (length tasks) Hole, sh)"
  by (cases tasks) (simp_all add: runParallel_def DELETE_CONCURRENCY_def min_def)

text \<open>Counting over the slots and counting over a permutation of the indices.\<close>

lemma filter_length_perm:
  assumes "mset order = mset [0..<length xs]"
  shows "length (filter (\<lambda>i. P (xs ! i)) order) = length (filter P xs)"
proof -
  have "mset (filter (\<lambda>i. P (xs ! i)) order) = mset (filter (\<lambda>i. P (xs ! i)) [0..<length xs])"
    using assms by simp
  then have "length (filter (\<lambda>i. P (xs ! i)) order) = length (filter (\<lambda>i. P (xs ! i)) [0..<length xs])"
    by (rule mset_eq_length)
  also have "\<dots> = length (filter P (map (\<lambda>i. xs ! i) [0..<length xs]))"
    by (simp add: filter_map comp_def)
  also have "map (\<lambda>i. xs ! i) [0..<length xs] = xs" by (rule map_nth)
  finally show ?thesis .
qed

lemma deletePhase_general:
  "\<exists>s. deletePhase faults lat rows disk0 = Inr s \<and>
       removedCount s + failedCount s = length rows \<and>
       length (failures s) = failedCount s \<and>
       fst ` set (failures s) \<subseteq> nmPath ` set rows"
proof (cases "rows = []")
  case True
  then show ?thesis by (simp add: deletePhase_def runParallel_def)
next
  case False
  let ?tasks = "map (deleteTask faults) rows"
  let ?order = "sort_key lat [0..<length rows]"
  let ?st0 = "\<lparr> deleteErrors = [], disk = disk0 \<rparr>"
  obtain res st where r: "settleInOrder ?tasks ?order (replicate (length rows) Hole, ?st0) = (res, st)"
    by (cases "settleInOrder ?tasks ?order (replicate (length rows) Hole, ?st0)")
  with False have rp: "runParallel lat ?tasks DELETE_CONCURRENCY ?st0 = (res, st)"
    by (simp add: runParallel_DELETE)
  have d: "distinct ?order" and sub: "set ?order \<subseteq> {0..<length rows}" by simp_all
  have l: "length (replicate (length rows) (Hole :: (exn, deleted) slot)) = length rows" by simp
  from settle_deleteTasks [OF d sub l r]
  obtain new where shape: "\<forall>i\<in>set ?order. \<exists>b. res ! i = Value \<lparr> success = b, path = nmPath (rows ! i) \<rparr>"
    and e: "deleteErrors st = new"
    and n: "map fst new = map (\<lambda>i. nmPath (rows ! i)) (filter (\<lambda>i. \<not> isSuccess (res ! i)) ?order)"
    by auto
  from settleInOrder_length [of ?tasks ?order "replicate (length rows) Hole" ?st0] r
  have len: "length res = length rows" by simp
  have nohole: "Hole \<notin> set res"
  proof
    assume "Hole \<in> set res"
    then obtain i where i: "i < length res" "res ! i = Hole" by (auto simp: in_set_conv_nth)
    with len have "i \<in> set ?order" by simp
    with shape obtain b where "res ! i = Value \<lparr> success = b, path = nmPath (rows ! i) \<rparr>"
      by blast
    with i show False by simp
  qed
  have perm: "mset ?order = mset [0..<length res]" by (simp add: len)
  have "length new = length (map fst new)" by simp
  also have "\<dots> = length (filter (\<lambda>i. \<not> isSuccess (res ! i)) ?order)" by (simp add: n)
  also have "\<dots> = length (filter (\<lambda>s. \<not> isSuccess s) res)"
    by (rule filter_length_perm [OF perm])
  finally have cnt: "length new = length (filter (\<lambda>s. \<not> isSuccess s) res)" .
  have paths: "fst ` set new \<subseteq> nmPath ` set rows"
  proof -
    have "fst ` set new = set (map fst new)" by simp
    also have "\<dots> \<subseteq> (\<lambda>i. nmPath (rows ! i)) ` set ?order" by (auto simp: n)
    also have "\<dots> \<subseteq> nmPath ` set rows" by auto
    finally show ?thesis .
  qed
  from tally_counts [OF nohole, of 0 0] rp
  have "deletePhase faults lat rows disk0 =
      Inr \<lparr> removedCount = length (filter isSuccess res),
            failedCount = length (filter (\<lambda>s. \<not> isSuccess s) res),
            failures = deleteErrors st, remaining = disk st \<rparr>"
    by (simp add: deletePhase_def)
  moreover have "length (filter isSuccess res) + length (filter (\<lambda>s. \<not> isSuccess s) res) = length rows"
    using sum_length_filter_compl [of isSuccess res] len by simp
  ultimately show ?thesis using cnt paths e by simp
qed

lemma removeDir_missing: "p \<notin> set dsk \<Longrightarrow> removeDir faults p dsk = (None, dsk)"
  by (simp add: removeDir_def fs_rm_def)

lemma rimraf_bounded:
  "(\<forall>j\<le>n. faults p (k + j) = faults' p (k + j)) \<Longrightarrow> rimraf faults p n k = rimraf faults' p n k"
proof (induction n arbitrary: k)
  case 0
  then show ?case by simp
next
  case (Suc n)
  from Suc.prems have h: "faults p k = faults' p k" by (metis add.right_neutral le0)
  have "\<forall>j\<le>n. faults p (Suc k + j) = faults' p (Suc k + j)"
  proof (intro allI impI)
    fix j assume "j \<le> n"
    with Suc.prems [rule_format, of "Suc j"] show "faults p (Suc k + j) = faults' p (Suc k + j)"
      by simp
  qed
  from Suc.IH [OF this] h show ?case by (simp split: option.splits)
qed

lemma removeDir_bounded:
  assumes "\<forall>k\<le>3. faults p k = faults' p k"
  shows "removeDir faults p dsk = removeDir faults' p dsk"
proof -
  from assms have "\<forall>j\<le>3. faults p (0 + j) = faults' p (0 + j)" by simp
  from rimraf_bounded [where faults = faults and faults' = faults' and p = p and n = 3 and k = 0, OF this]
  show ?thesis by (simp add: removeDir_def fs_rm_def)
qed

lemma removeDir_persistent:
  assumes "\<forall>k\<le>3. \<exists>e. faults p k = Some e \<and> transient (code e)" and "p \<in> set dsk"
  shows "removeDir faults p dsk = (faults p 3, dsk)"
proof -
  from assms(1) have "\<exists>e. faults p 0 = Some e \<and> transient (code e)"
    "\<exists>e. faults p 1 = Some e \<and> transient (code e)"
    "\<exists>e. faults p 2 = Some e \<and> transient (code e)"
    "\<exists>e. faults p 3 = Some e \<and> transient (code e)"
    by simp_all
  then obtain e0 e1 e2 e3 where e:
    "faults p 0 = Some e0" "transient (code e0)" "faults p 1 = Some e1" "transient (code e1)"
    "faults p 2 = Some e2" "transient (code e2)" "faults p 3 = Some e3" "transient (code e3)"
    by blast
  then have "rimraf faults p 3 0 = Some e3" by (simp add: numeral_3_eq_3 numeral_2_eq_2)
  moreover from e have "code e3 \<noteq> ENOENT" by (auto simp: transient_def)
  ultimately show ?thesis using assms(2) e by (simp add: removeDir_def fs_rm_def)
qed

lemma removeDir_fst:
  "(p \<in> set d1 \<longleftrightarrow> p \<in> set d2) \<Longrightarrow> fst (removeDir faults p d1) = fst (removeDir faults p d2)"
  by (simp add: removeDir_def fs_rm_def split: option.splits)

lemma removeDir_snd:
  "snd (removeDir faults p d) =
     filter (\<lambda>q. \<not> (fst (removeDir faults p d) = None \<and> p \<in> set d \<and> isUnder p q)) d"
  by (simp add: removeDir_def fs_rm_def split: option.splits)

lemma deleteTask_eq:
  "deleteTask faults r st =
     (Inr \<lparr> success = (fst (removeDir faults (nmPath r) (disk st)) = None), path = nmPath r \<rparr>,
      st\<lparr> deleteErrors := deleteErrors st @
            (case fst (removeDir faults (nmPath r) (disk st)) of
               None \<Rightarrow> [] | Some e \<Rightarrow> [(nmPath r, message e)]),
          disk := snd (removeDir faults (nmPath r) (disk st)) \<rparr>)"
  by (cases "removeDir faults (nmPath r) (disk st)") (auto simp: deleteTask_def split: option.splits)

lemma independent_nth:
  assumes "independent rows" and "i < length rows" and "j < length rows" and "i \<noteq> j"
  shows "\<not> isUnder (nmPath (rows ! i)) (nmPath (rows ! j))"
proof -
  from assms(1) have d: "distinct (map nmPath rows)" by (simp add: independent_def)
  from nth_eq_iff_index_eq [OF d, of i j] assms(2,3,4)
  have "nmPath (rows ! i) \<noteq> nmPath (rows ! j)" by simp
  moreover from assms(2,3) have "rows ! i \<in> set rows" "rows ! j \<in> set rows" by simp_all
  ultimately show ?thesis using assms(1) by (simp add: independent_def)
qed

lemma settle_independent:
  assumes "distinct order" and "set order \<subseteq> {0..<length rows}" and "length res0 = length rows"
    and "independent rows"
    and "\<forall>i\<in>set order. nmPath (rows ! i) \<in> set (disk st0) \<longleftrightarrow> nmPath (rows ! i) \<in> set disk0"
    and "settleInOrder (map (deleteTask faults) rows) order (res0, st0) = (res, st)"
  shows "(\<forall>i\<in>set order. res ! i =
            Value \<lparr> success = (verdict faults disk0 (rows ! i) = None), path = nmPath (rows ! i) \<rparr>) \<and>
     deleteErrors st = deleteErrors st0 @ concat (map (\<lambda>i. errorOf faults disk0 (rows ! i)) order) \<and>
     disk st = filter (\<lambda>q. \<not> (\<exists>i\<in>set order. verdict faults disk0 (rows ! i) = None \<and>
                    nmPath (rows ! i) \<in> set disk0 \<and> isUnder (nmPath (rows ! i)) q)) (disk st0)"
  using assms
proof (induction order arbitrary: res0 st0)
  case Nil
  then show ?case by simp
next
  case (Cons i order)
  let ?tasks = "map (deleteTask faults) rows"
  let ?p = "nmPath (rows ! i)"
  let ?v = "verdict faults disk0 (rows ! i)"
  from Cons.prems have i: "i < length rows" and ni: "i \<notin> set order"
    and d: "distinct order" and sub: "set order \<subseteq> {0..<length rows}" by auto
  from Cons.prems(5) have mem: "?p \<in> set (disk st0) \<longleftrightarrow> ?p \<in> set disk0" by simp
  from removeDir_fst [OF this] have v: "fst (removeDir faults ?p (disk st0)) = ?v"
    by (simp add: verdict_def)
  let ?out = "\<lparr> success = (?v = None), path = ?p \<rparr>"
  let ?disk1 = "filter (\<lambda>q. \<not> (?v = None \<and> ?p \<in> set disk0 \<and> isUnder ?p q)) (disk st0)"
  let ?st1 = "st0\<lparr> deleteErrors := deleteErrors st0 @ errorOf faults disk0 (rows ! i), disk := ?disk1 \<rparr>"
  have t: "deleteTask faults (rows ! i) st0 = (Inr ?out, ?st1)"
    unfolding deleteTask_eq v removeDir_snd [of faults ?p "disk st0"]
    using mem by (simp add: errorOf_def)
  let ?res1 = "res0[i := Value ?out]"
  from Cons.prems(6) t i
  have run: "settleInOrder ?tasks order (?res1, ?st1) = (res, st)" by simp
  from Cons.prems(3) have len1: "length ?res1 = length rows" by simp
  have agree: "\<forall>j\<in>set order. nmPath (rows ! j) \<in> set (disk ?st1) \<longleftrightarrow> nmPath (rows ! j) \<in> set disk0"
  proof
    fix j assume j: "j \<in> set order"
    with sub ni have "j < length rows" "i \<noteq> j" by auto
    with Cons.prems(4) i have "\<not> isUnder ?p (nmPath (rows ! j))" by (simp add: independent_nth)
    moreover from Cons.prems(5) j
    have "nmPath (rows ! j) \<in> set (disk st0) \<longleftrightarrow> nmPath (rows ! j) \<in> set disk0" by simp
    ultimately show "nmPath (rows ! j) \<in> set (disk ?st1) \<longleftrightarrow> nmPath (rows ! j) \<in> set disk0"
      by simp
  qed
  from Cons.IH [OF d sub len1 Cons.prems(4) agree run]
  have shape: "\<forall>j\<in>set order. res ! j =
            Value \<lparr> success = (verdict faults disk0 (rows ! j) = None), path = nmPath (rows ! j) \<rparr>"
    and errs: "deleteErrors st = deleteErrors ?st1 @ concat (map (\<lambda>j. errorOf faults disk0 (rows ! j)) order)"
    and dsk: "disk st = filter (\<lambda>q. \<not> (\<exists>j\<in>set order. verdict faults disk0 (rows ! j) = None \<and>
                    nmPath (rows ! j) \<in> set disk0 \<and> isUnder (nmPath (rows ! j)) q)) (disk ?st1)"
    by simp_all
  from settleInOrder_slot [of i ?res1 order ?tasks ?st1] ni i len1 run
  have resi: "res ! i = Value ?out" by simp
  from resi shape have a: "\<forall>j\<in>set (i # order). res ! j =
            Value \<lparr> success = (verdict faults disk0 (rows ! j) = None), path = nmPath (rows ! j) \<rparr>"
    by simp
  from errs have b: "deleteErrors st =
      deleteErrors st0 @ concat (map (\<lambda>j. errorOf faults disk0 (rows ! j)) (i # order))"
    by simp
  from dsk have c: "disk st = filter (\<lambda>q. \<not> (\<exists>j\<in>set (i # order). verdict faults disk0 (rows ! j) = None \<and>
                    nmPath (rows ! j) \<in> set disk0 \<and> isUnder (nmPath (rows ! j)) q)) (disk st0)"
    by (simp add: conj_commute)
  from a b c show ?case by blast
qed

lemma mset_concat_perm:
  assumes "mset order = mset [0..<length xs]"
  shows "mset (concat (map (\<lambda>i. g (xs ! i)) order)) = mset (concat (map g xs))"
proof -
  have "mset (map (\<lambda>i. xs ! i) order) = mset (map (\<lambda>i. xs ! i) [0..<length xs])"
    using assms by (metis mset_map)
  also have "map (\<lambda>i. xs ! i) [0..<length xs] = xs" by (rule map_nth)
  finally have p: "mset (map (\<lambda>i. xs ! i) order) = mset xs" .
  have "mset (concat (map g ys)) = (\<Sum>y\<in>#mset ys. mset (g y))" for ys
    by (induction ys) simp_all
  from this [of "map (\<lambda>i. xs ! i) order"] this [of xs] p
  show ?thesis by (simp add: comp_def)
qed

lemma deletePhase_independent:
  assumes ind: "independent rows"
  shows "\<exists>fs. deletePhase faults lat rows disk0 =
       Inr \<lparr> removedCount = length (filter (\<lambda>r. verdict faults disk0 r = None) rows),
             failedCount = length (filter (\<lambda>r. verdict faults disk0 r \<noteq> None) rows),
             failures = fs,
             remaining = filter (\<lambda>q. \<not> (\<exists>r\<in>set rows. verdict faults disk0 r = None \<and>
                    nmPath r \<in> set disk0 \<and> isUnder (nmPath r) q)) disk0 \<rparr> \<and>
       mset fs = mset (concat (map (errorOf faults disk0) rows))"
proof (cases "rows = []")
  case True
  then show ?thesis by (simp add: deletePhase_def runParallel_def)
next
  case False
  let ?tasks = "map (deleteTask faults) rows"
  let ?order = "sort_key lat [0..<length rows]"
  let ?st0 = "\<lparr> deleteErrors = [], disk = disk0 \<rparr>"
  let ?ok = "\<lambda>r. verdict faults disk0 r = None"
  obtain res st where r: "settleInOrder ?tasks ?order (replicate (length rows) Hole, ?st0) = (res, st)"
    by (cases "settleInOrder ?tasks ?order (replicate (length rows) Hole, ?st0)")
  with False have rp: "runParallel lat ?tasks DELETE_CONCURRENCY ?st0 = (res, st)"
    by (simp add: runParallel_DELETE)
  have d: "distinct ?order" and sub: "set ?order \<subseteq> {0..<length rows}" by simp_all
  have l: "length (replicate (length rows) (Hole :: (exn, deleted) slot)) = length rows" by simp
  have agree: "\<forall>i\<in>set ?order. nmPath (rows ! i) \<in> set (disk ?st0) \<longleftrightarrow> nmPath (rows ! i) \<in> set disk0"
    by simp
  from settle_independent [OF d sub l ind agree r]
  have shape: "\<forall>i\<in>set ?order. res ! i = Value \<lparr> success = ?ok (rows ! i), path = nmPath (rows ! i) \<rparr>"
    and errs: "deleteErrors st = concat (map (\<lambda>i. errorOf faults disk0 (rows ! i)) ?order)"
    and dsk: "disk st = filter (\<lambda>q. \<not> (\<exists>i\<in>set ?order. ?ok (rows ! i) \<and>
                    nmPath (rows ! i) \<in> set disk0 \<and> isUnder (nmPath (rows ! i)) q)) disk0"
    by simp_all
  from settleInOrder_length [of ?tasks ?order "replicate (length rows) Hole" ?st0] r
  have len: "length res = length rows" by simp
  have res: "res = map (\<lambda>r. Value \<lparr> success = ?ok r, path = nmPath r \<rparr>) rows"
    by (rule nth_equalityI) (use shape len in simp_all)
  then have nohole: "Hole \<notin> set res" by auto
  have ok: "filter isSuccess res = map (\<lambda>r. Value \<lparr> success = ?ok r, path = nmPath r \<rparr>) (filter ?ok rows)"
    and nok: "filter (\<lambda>s. \<not> isSuccess s) res =
      map (\<lambda>r. Value \<lparr> success = ?ok r, path = nmPath r \<rparr>) (filter (\<lambda>r. \<not> ?ok r) rows)"
    unfolding res by (simp_all add: filter_map comp_def isSuccess_def)
  have rem: "disk st = filter (\<lambda>q. \<not> (\<exists>r\<in>set rows. ?ok r \<and>
                    nmPath r \<in> set disk0 \<and> isUnder (nmPath r) q)) disk0"
    unfolding dsk
  proof (rule filter_cong [OF refl])
    fix q
    have "(\<exists>i\<in>set ?order. ?ok (rows ! i) \<and> nmPath (rows ! i) \<in> set disk0 \<and> isUnder (nmPath (rows ! i)) q)
        \<longleftrightarrow> (\<exists>r\<in>set rows. ?ok r \<and> nmPath r \<in> set disk0 \<and> isUnder (nmPath r) q)"
    proof
      assume "\<exists>i\<in>set ?order. ?ok (rows ! i) \<and> nmPath (rows ! i) \<in> set disk0 \<and> isUnder (nmPath (rows ! i)) q"
      then obtain i where "i < length rows" and
        "?ok (rows ! i) \<and> nmPath (rows ! i) \<in> set disk0 \<and> isUnder (nmPath (rows ! i)) q" by auto
      moreover from this have "rows ! i \<in> set rows" by simp
      ultimately show "\<exists>r\<in>set rows. ?ok r \<and> nmPath r \<in> set disk0 \<and> isUnder (nmPath r) q" by blast
    next
      assume "\<exists>r\<in>set rows. ?ok r \<and> nmPath r \<in> set disk0 \<and> isUnder (nmPath r) q"
      then obtain r where "r \<in> set rows" and
        h: "?ok r \<and> nmPath r \<in> set disk0 \<and> isUnder (nmPath r) q" by blast
      then obtain i where "i < length rows" "rows ! i = r" by (auto simp: in_set_conv_nth)
      moreover from this have "i \<in> set ?order" by simp
      ultimately show "\<exists>i\<in>set ?order. ?ok (rows ! i) \<and> nmPath (rows ! i) \<in> set disk0 \<and> isUnder (nmPath (rows ! i)) q"
        using h by blast
    qed
    then show "(\<not> (\<exists>i\<in>set ?order. ?ok (rows ! i) \<and> nmPath (rows ! i) \<in> set disk0 \<and> isUnder (nmPath (rows ! i)) q))
        = (\<not> (\<exists>r\<in>set rows. ?ok r \<and> nmPath r \<in> set disk0 \<and> isUnder (nmPath r) q))"
      by simp
  qed
  have perm: "mset ?order = mset [0..<length rows]" by simp
  from tally_counts [OF nohole, of 0 0] rp
  have "deletePhase faults lat rows disk0 =
      Inr \<lparr> removedCount = length (filter isSuccess res),
            failedCount = length (filter (\<lambda>s. \<not> isSuccess s) res),
            failures = deleteErrors st, remaining = disk st \<rparr>"
    by (simp add: deletePhase_def)
  then have "deletePhase faults lat rows disk0 =
      Inr \<lparr> removedCount = length (filter ?ok rows),
            failedCount = length (filter (\<lambda>r. \<not> ?ok r) rows),
            failures = deleteErrors st,
            remaining = filter (\<lambda>q. \<not> (\<exists>r\<in>set rows. ?ok r \<and>
                    nmPath r \<in> set disk0 \<and> isUnder (nmPath r) q)) disk0 \<rparr>"
    by (simp add: ok nok rem)
  moreover have "mset (deleteErrors st) = mset (concat (map (errorOf faults disk0) rows))"
    unfolding errs by (rule mset_concat_perm [OF perm])
  ultimately show ?thesis by blast
qed

text \<open>
  Claim C8. The deletion phase never raises and gives every target one verdict: the
  counts of removed and failed targets add up to the number of targets, and every failure
  is recorded once, with the path of its target and the message of its error. A target
  that is already gone is a success. A removal looks at no more than four attempts (the
  first and three retries), and a target whose four attempts fail with a transient error
  fails with the last error and leaves the disk as it is. For targets that do not
  contain one another the verdict of each is the one it would get alone, whatever the
  completion order, and exactly what lies under the removed targets is gone; so for five
  targets of which the third always fails, four are removed with their contents, one
  fails, and the failure names the third.
\<close>

theorem deletePhase_partial_failure:
  "(\<exists>s. deletePhase faults lat rows disk0 = Inr s \<and>
        removedCount s + failedCount s = length rows \<and>
        length (failures s) = failedCount s \<and>
        fst ` set (failures s) \<subseteq> nmPath ` set rows) \<and>
   (p \<notin> set dsk \<longrightarrow> removeDir faults p dsk = (None, dsk)) \<and>
   ((\<forall>k\<le>3. faults p k = faults' p k) \<longrightarrow> removeDir faults p dsk = removeDir faults' p dsk) \<and>
   ((\<forall>k\<le>3. \<exists>e. faults p k = Some e \<and> transient (code e)) \<longrightarrow> p \<in> set dsk \<longrightarrow>
        removeDir faults p dsk = (faults p 3, dsk)) \<and>
   (independent rows \<longrightarrow>
      (\<exists>fs. deletePhase faults lat rows disk0 =
         Inr \<lparr> removedCount = length (filter (\<lambda>r. verdict faults disk0 r = None) rows),
               failedCount = length (filter (\<lambda>r. verdict faults disk0 r \<noteq> None) rows),
               failures = fs,
               remaining = filter (\<lambda>q. \<not> (\<exists>r\<in>set rows. verdict faults disk0 r = None \<and>
                      nmPath r \<in> set disk0 \<and> isUnder (nmPath r) q)) disk0 \<rparr> \<and>
         mset fs = mset (concat (map (errorOf faults disk0) rows)))) \<and>
   deletePhase faults5 lat rows5 disk5 =
     Inr \<lparr> removedCount = 4, failedCount = 1,
           failures = [(target ''p3'', ''EPERM: operation not permitted'')],
           remaining = [target ''p3'', target ''p3'' @ [''left-pad''], [''w'', ''p5'', ''src''] ] \<rparr>"
proof (intro conjI impI)
  show "\<exists>s. deletePhase faults lat rows disk0 = Inr s \<and>
        removedCount s + failedCount s = length rows \<and>
        length (failures s) = failedCount s \<and>
        fst ` set (failures s) \<subseteq> nmPath ` set rows"
    by (rule deletePhase_general)
next
  assume "p \<notin> set dsk"
  then show "removeDir faults p dsk = (None, dsk)" by (rule removeDir_missing)
next
  assume "\<forall>k\<le>3. faults p k = faults' p k"
  then show "removeDir faults p dsk = removeDir faults' p dsk" by (rule removeDir_bounded)
next
  assume "\<forall>k\<le>3. \<exists>e. faults p k = Some e \<and> transient (code e)" "p \<in> set dsk"
  then show "removeDir faults p dsk = (faults p 3, dsk)" by (rule removeDir_persistent)
next
  assume "independent rows"
  then show "\<exists>fs. deletePhase faults lat rows disk0 =
         Inr \<lparr> removedCount = length (filter (\<lambda>r. verdict faults disk0 r = None) rows),
               failedCount = length (filter (\<lambda>r. verdict faults disk0 r \<noteq> None) rows),
               failures = fs,
               remaining = filter (\<lambda>q. \<not> (\<exists>r\<in>set rows. verdict faults disk0 r = None \<and>
                      nmPath r \<in> set disk0 \<and> isUnder (nmPath r) q)) disk0 \<rparr> \<and>
         mset fs = mset (concat (map (errorOf faults disk0) rows))"
    by (rule deletePhase_independent)
next
  have ind: "independent rows5"
    by (simp add: independent_def rows5_def target_def isUnder_def)
  have v: "verdict faults5 disk5 r = (if nmPath r = target ''p3'' then Some denied else None)"
    if "r \<in> set rows5" for r
    using that
    by (auto simp: verdict_def removeDir_def fs_rm_def faults5_def numeral_3_eq_3
        rows5_def disk5_def target_def denied_def)
  from deletePhase_independent [OF ind, of faults5 lat disk5]
  obtain fs where d: "deletePhase faults5 lat rows5 disk5 =
       Inr \<lparr> removedCount = length (filter (\<lambda>r. verdict faults5 disk5 r = None) rows5),
             failedCount = length (filter (\<lambda>r. verdict faults5 disk5 r \<noteq> None) rows5),
             failures = fs,
             remaining = filter (\<lambda>q. \<not> (\<exists>r\<in>set rows5. verdict faults5 disk5 r = None \<and>
                    nmPath r \<in> set disk5 \<and> isUnder (nmPath r) q)) disk5 \<rparr>"
    and m: "mset fs = mset (concat (map (errorOf faults5 disk5) rows5))" by blast
  have f1: "filter (\<lambda>r. verdict faults5 disk5 r = None) rows5 =
      filter (\<lambda>r. nmPath r \<noteq> target ''p3'') rows5"
    by (rule filter_cong) (simp_all add: v)
  have f2: "filter (\<lambda>r. verdict faults5 disk5 r \<noteq> None) rows5 =
      filter (\<lambda>r. nmPath r = target ''p3'') rows5"
    by (rule filter_cong) (simp_all add: v)
  have f3: "map (errorOf faults5 disk5) rows5 =
      map (\<lambda>r. if nmPath r = target ''p3'' then [(nmPath r, message denied)] else []) rows5"
    by (rule map_cong) (simp_all add: v errorOf_def)
  have f4: "filter (\<lambda>q. \<not> (\<exists>r\<in>set rows5. verdict faults5 disk5 r = None \<and>
                    nmPath r \<in> set disk5 \<and> isUnder (nmPath r) q)) disk5 =
      filter (\<lambda>q. \<not> (\<exists>r\<in>set rows5. nmPath r \<noteq> target ''p3'' \<and>
                    nmPath r \<in> set disk5 \<and> isUnder (nmPath r) q)) disk5"
    by (rule filter_cong) (auto simp: v)
  have c1: "length (filter (\<lambda>r. nmPath r \<noteq> target ''p3'') rows5) = 4"
    and c2: "length (filter (\<lambda>r. nmPath r = target ''p3'') rows5) = 1"
    by (simp_all add: rows5_def target_def)
  from m have "fs = [(target ''p3'', ''EPERM: operation not permitted'')]"
    unfolding f3 by (simp add: rows5_def target_def denied_def)
  moreover have "filter (\<lambda>q. \<not> (\<exists>r\<in>set rows5. nmPath r \<noteq> target ''p3'' \<and>
                    nmPath r \<in> set disk5 \<and> isUnder (nmPath r) q)) disk5 =
      [target ''p3'', target ''p3'' @ [''left-pad''], [''w'', ''p5'', ''src''] ]"
    by (simp add: rows5_def disk5_def target_def isUnder_def)
  ultimately show "deletePhase faults5 lat rows5 disk5 =
     Inr \<lparr> removedCount = 4, failedCount = 1,
           failures = [(target ''p3'', ''EPERM: operation not permitted'')],
           remaining = [target ''p3'', target ''p3'' @ [''left-pad''], [''w'', ''p5'', ''src''] ] \<rparr>"
    unfolding d f1 f2 f4 c1 c2 by simp
qed

lemmas delete_eval =
  deletePhase_def runParallel_def DELETE_CONCURRENCY_def deleteTask_def removeDir_def fs_rm_def
  faults5_def rows5_def disk5_def target_def denied_def isUnder_def lifo_def

text \<open>The same five targets, completing in reverse order, the second one already gone.\<close>

theorem deletePhase_partial_failure_witness:
  "deletePhase faults5 lifo rows5 (remove1 (target ''p2'') disk5) =
     Inr \<lparr> removedCount = 4, failedCount = 1,
           failures = [(target ''p3'', ''EPERM: operation not permitted'')],
           remaining = [target ''p3'', target ''p3'' @ [''left-pad''], [''w'', ''p5'', ''src''] ] \<rparr> \<and>
   target ''p2'' \<notin> set (remove1 (target ''p2'') disk5) \<and>
   removeDir faults5 (target ''p2'') (remove1 (target ''p2'') disk5) = (None, remove1 (target ''p2'') disk5) \<and>
   target ''p3'' \<in> set disk5 \<and>
   removeDir faults5 (target ''p3'') disk5 = (Some denied, disk5) \<and>
   independent rows5"
proof -
  have ev: "deletePhase faults5 lifo rows5 (remove1 (target ''p2'') disk5) =
     Inr \<lparr> removedCount = 4, failedCount = 1,
           failures = [(target ''p3'', ''EPERM: operation not permitted'')],
           remaining = [target ''p3'', target ''p3'' @ [''left-pad''], [''w'', ''p5'', ''src''] ] \<rparr>"
    by (simp add: delete_eval numeral_3_eq_3)
  have gone: "target ''p2'' \<notin> set (remove1 (target ''p2'') disk5)"
    by (simp add: disk5_def target_def)
  have there: "target ''p3'' \<in> set disk5" by (simp add: disk5_def target_def)
  have always: "\<forall>k\<le>3. \<exists>e. faults5 (target ''p3'') k = Some e \<and> transient (code e)"
    by (simp add: faults5_def denied_def transient_def)
  have ind: "independent rows5"
    by (simp add: independent_def rows5_def target_def isUnder_def)
  note inst = deletePhase_partial_failure [where faults = faults5 and rows = rows5]
  from inst [where p = "target ''p2''" and dsk = "remove1 (target ''p2'') disk5"] gone
  have a: "removeDir faults5 (target ''p2'') (remove1 (target ''p2'') disk5) =
      (None, remove1 (target ''p2'') disk5)" by blast
  from inst [where p = "target ''p3''" and dsk = disk5] there always
  have b: "removeDir faults5 (target ''p3'') disk5 = (Some denied, disk5)"
    by (simp add: faults5_def)
  from ev gone a there b ind show ?thesis by simp
qed


end
